theory Spec2Isabelle
  imports Complex_Main "HOL-Library.Sublist"
begin

section \<open>Data model\<close>

text \<open>
  The numbers the engine stores in colours are integers or, where JavaScript produces
  no integer (\<^verbatim>\<open>parseInt\<close> of a field without digits, a read past the end of a
  buffer that is then used in arithmetic), the value NaN. Integers are taken as exact:
  colour channels lie in 0..255 and every intermediate result of the distance computation
  is far below \<open>2 ^ 53\<close>.
\<close>

datatype jsnum = Num int | NaN

fun jsSub :: "jsnum \<Rightarrow> jsnum \<Rightarrow> jsnum" where
  "jsSub (Num x) (Num y) = Num (x - y)"
| "jsSub _ _ = NaN"

fun jsAdd :: "jsnum \<Rightarrow> jsnum \<Rightarrow> jsnum" where
  "jsAdd (Num x) (Num y) = Num (x + y)"
| "jsAdd _ _ = NaN"

fun jsMul :: "jsnum \<Rightarrow> jsnum \<Rightarrow> jsnum" where
  "jsMul (Num x) (Num y) = Num (x * y)"
| "jsMul _ _ = NaN"

text \<open>The comparison \<^verbatim>\<open>x < y\<close>: false as soon as one side is NaN.\<close>

fun jsLt :: "jsnum \<Rightarrow> jsnum \<Rightarrow> bool" where
  "jsLt (Num x) (Num y) = (x < y)"
| "jsLt _ _ = False"

text \<open>
  A target colour is an object \<^verbatim>\<open>{r, g, b}\<close>; a tile record is
  \<^verbatim>\<open>{r, g, b, path}\<close>. \<^verbatim>\<open>colorDistanceSq\<close> reads only the three channels,
  so it takes either. \<open>TileRef\<close> is a tile record together with the identity of the
  JavaScript object that holds it: \<^verbatim>\<open>usedTiles\<close> is a \<^verbatim>\<open>Set\<close> of objects, compared
  by identity and not by content.
\<close>

record Color =
  r :: jsnum
  g :: jsnum
  b :: jsnum

record TileRecord = Color +
  path :: string

record TileRef = TileRecord +
  ref :: nat

datatype error = Error string

fun message :: "error \<Rightarrow> string" where
  "message (Error m) = m"

text \<open>
  The fields of \<^verbatim>\<open>class MosaicGenerator\<close>, but for \<^verbatim>\<open>this.tileSize\<close>, which only
  the decoding of a tile image for its average colour reads.
\<close>

record MosaicGenerator =
  tileCache :: "string \<rightharpoonup> TileRecord"
  corruptedTiles :: "string set"
  lastTilePattern :: "string list list"
  lastMosaicWidth :: nat
  lastMosaicHeight :: nat

section \<open>Color Matcher\<close>

definition colorDistanceSq :: "'a Color_scheme \<Rightarrow> 'b Color_scheme \<Rightarrow> jsnum" where
  "colorDistanceSq color1 color2 =
     (let dr = jsSub (r color1) (r color2);
          dg = jsSub (g color1) (g color2);
          db = jsSub (b color1) (b color2)
      in jsAdd (jsAdd (jsMul dr dr) (jsMul dg dg)) (jsMul db db))"

text \<open>
  The scan \<^verbatim>\<open>for (let i = 1; i < validTiles.length; i++)\<close> of \<^verbatim>\<open>findBestTile\<close>,
  with \<^verbatim>\<open>bestTile\<close> and \<^verbatim>\<open>bestDistance\<close> as accumulators.
\<close>

fun findBestLoop ::
  "'a Color_scheme \<Rightarrow> 'b TileRecord_scheme \<Rightarrow> jsnum \<Rightarrow> 'b TileRecord_scheme list
   \<Rightarrow> 'b TileRecord_scheme" where
  "findBestLoop targetColor bestTile bestDistance [] = bestTile"
| "findBestLoop targetColor bestTile bestDistance (tile # rest) =
     (let distance = colorDistanceSq targetColor tile
      in if jsLt distance bestDistance
         then findBestLoop targetColor tile distance rest
         else findBestLoop targetColor bestTile bestDistance rest)"

text \<open>
  \<^verbatim>\<open>tiles.filter((tile) => !this.corruptedTiles.has(tile.path))\<close>, the first statement
  of \<^verbatim>\<open>findBestTile\<close>.
\<close>

definition validTiles ::
  "MosaicGenerator \<Rightarrow> 'b TileRecord_scheme list \<Rightarrow> 'b TileRecord_scheme list" where
  "validTiles this tiles = filter (\<lambda>tile. path tile \<notin> corruptedTiles this) tiles"

definition findBestTile ::
  "MosaicGenerator \<Rightarrow> 'a Color_scheme \<Rightarrow> 'b TileRecord_scheme list
   \<Rightarrow> error + 'b TileRecord_scheme" where
  "findBestTile this targetColor tiles =
     (case validTiles this tiles of
        [] \<Rightarrow> Inl (Error ''No valid tiles available - all tiles are corrupted'')
      | first # rest \<Rightarrow>
          Inr (findBestLoop targetColor first (colorDistanceSq targetColor first) rest))"

text \<open>The constructor: an empty cache, no corrupted tile, no tile pattern yet.\<close>

definition defaultTileSize :: int where
  "defaultTileSize = 6"

definition newMosaicGenerator :: MosaicGenerator where
  "newMosaicGenerator =
     \<lparr>tileCache = Map.empty, corruptedTiles = {},
      lastTilePattern = [], lastMosaicWidth = 0, lastMosaicHeight = 0\<rparr>"

text \<open>
  The distance of the specification, the sum of the squared differences of the channels,
  on colours whose channels are integers (\<open>intColor\<close>).
\<close>

definition intColor :: "'a Color_scheme \<Rightarrow> bool" where
  "intColor c = (r c \<noteq> NaN \<and> g c \<noteq> NaN \<and> b c \<noteq> NaN)"

fun toInt :: "jsnum \<Rightarrow> int" where
  "toInt (Num n) = n"
| "toInt NaN = 0"

definition distanceSquared :: "'a Color_scheme \<Rightarrow> 'b Color_scheme \<Rightarrow> int" where
  "distanceSquared c1 c2 =
     (toInt (r c1) - toInt (r c2))\<^sup>2 + (toInt (g c1) - toInt (g c2))\<^sup>2
       + (toInt (b c1) - toInt (b c2))\<^sup>2"

section \<open>Strings\<close>

text \<open>
  Strings are lists of characters, a character being a code unit below 256.
  \<^verbatim>\<open>trim\<close> removes white space and line terminators at both ends; below 256 these
  are tab, line feed, vertical tab, form feed, carriage return, space and the no-break
  space.
\<close>

definition isWhiteSpace :: "char \<Rightarrow> bool" where
  "isWhiteSpace c =
     (c \<in> {CHR 0x09, CHR 0x0A, CHR 0x0B, CHR 0x0C, CHR 0x0D, CHR 0x20, CHR 0xA0})"

definition trimStart :: "string \<Rightarrow> string" where
  "trimStart s = dropWhile isWhiteSpace s"

definition trimEnd :: "string \<Rightarrow> string" where
  "trimEnd s = rev (dropWhile isWhiteSpace (rev s))"

definition trim :: "string \<Rightarrow> string" where
  "trim s = trimEnd (trimStart s)"

text \<open>
  \<^verbatim>\<open>s.split(sep)\<close> for a separator of one character: the pieces between the
  separators, the empty string giving one empty piece.
\<close>

fun split :: "char \<Rightarrow> string \<Rightarrow> string list" where
  "split sep [] = [[]]"
| "split sep (c # cs) =
     (if c = sep then [] # split sep cs
      else case split sep cs of
             [] \<Rightarrow> [[c]]
           | piece # pieces \<Rightarrow> (c # piece) # pieces)"

text \<open>\<^verbatim>\<open>lines.join(sep)\<close>\<close>

fun join :: "char \<Rightarrow> string list \<Rightarrow> string" where
  "join sep [] = []"
| "join sep [x] = x"
| "join sep (x # y # ys) = x @ sep # join sep (y # ys)"

text \<open>
  The decimal digits of a natural number, as \<^verbatim>\<open>toString\<close> and template literals
  print an integer below \<open>10 ^ 21\<close>.
\<close>

definition digitChar :: "nat \<Rightarrow> char" where
  "digitChar d = ''0123456789'' ! d"

fun natToString :: "nat \<Rightarrow> string" where
  "natToString n =
     (if n < 10 then [digitChar n] else natToString (n div 10) @ [digitChar (n mod 10)])"

declare natToString.simps [simp del]

definition numToString :: "jsnum \<Rightarrow> string" where
  "numToString x =
     (case x of
        NaN \<Rightarrow> ''NaN''
      | Num n \<Rightarrow> if n < 0 then CHR ''-'' # natToString (nat (- n)) else natToString (nat n))"

text \<open>\<^verbatim>\<open>s.padStart(n, '0')\<close>\<close>

definition padStart :: "nat \<Rightarrow> char \<Rightarrow> string \<Rightarrow> string" where
  "padStart n c s = replicate (n - length s) c @ s"

text \<open>
  \<^verbatim>\<open>parseInt(s)\<close> without a radix: leading white space is skipped, then an optional
  sign, then the prefix \<^verbatim>\<open>0x\<close> or \<^verbatim>\<open>0X\<close> selects radix 16, else the radix is 10;
  the longest run of digits of that radix is the value, and no digit at all gives NaN.
\<close>

definition digitValue :: "nat \<Rightarrow> char \<Rightarrow> nat option" where
  "digitValue radix c =
     (let n = of_char c :: nat;
          v = (if 48 \<le> n \<and> n \<le> 57 then Some (n - 48)
               else if 97 \<le> n \<and> n \<le> 122 then Some (n - 87)
               else if 65 \<le> n \<and> n \<le> 90 then Some (n - 55)
               else None)
      in case v of None \<Rightarrow> None | Some d \<Rightarrow> if d < radix then Some d else None)"

fun digitsValue :: "nat \<Rightarrow> nat \<Rightarrow> string \<Rightarrow> nat" where
  "digitsValue radix acc [] = acc"
| "digitsValue radix acc (c # cs) =
     (case digitValue radix c of
        None \<Rightarrow> acc
      | Some d \<Rightarrow> digitsValue radix (acc * radix + d) cs)"

definition parseDigits :: "nat \<Rightarrow> int \<Rightarrow> string \<Rightarrow> jsnum" where
  "parseDigits radix sign s =
     (case s of
        [] \<Rightarrow> NaN
      | c # cs \<Rightarrow> (case digitValue radix c of
                    None \<Rightarrow> NaN
                  | Some d \<Rightarrow> Num (sign * int (digitsValue radix 0 s))))"

definition stripPrefix :: "int \<Rightarrow> string \<Rightarrow> jsnum" where
  "stripPrefix sign s =
     (case s of
        c0 # cx # rest \<Rightarrow>
          if c0 = CHR ''0'' \<and> (cx = CHR ''x'' \<or> cx = CHR ''X'')
          then parseDigits 16 sign rest
          else parseDigits 10 sign s
      | _ \<Rightarrow> parseDigits 10 sign s)"

definition parseInt :: "string \<Rightarrow> jsnum" where
  "parseInt s =
     (case trimStart s of
        [] \<Rightarrow> NaN
      | c # cs \<Rightarrow>
          if c = CHR ''-'' then stripPrefix (- 1) cs
          else if c = CHR ''+'' then stripPrefix 1 cs
          else stripPrefix 1 (c # cs))"

section \<open>Tile Index: the cache file\<close>

text \<open>
  \<^verbatim>\<open>saveTileCacheToCSV\<close>: the text handed to \<^verbatim>\<open>fs.writeFile\<close>, the header line
  followed by one line \<^verbatim>\<open>path,r,g,b\<close> for each tile, joined by line feeds.
\<close>

definition csvLine :: "'a TileRecord_scheme \<Rightarrow> string" where
  "csvLine tile =
     path tile @ '','' @ numToString (r tile) @ '','' @ numToString (g tile)
       @ '','' @ numToString (b tile)"

definition saveTileCacheToCSV :: "'a TileRecord_scheme list \<Rightarrow> string" where
  "saveTileCacheToCSV tiles = join CHR 0x0A (''path,r,g,b'' # map csvLine tiles)"

text \<open>
  \<^verbatim>\<open>loadTileCacheFromCSV\<close>. One line of the loop: the line is split at the commas,
  the first four pieces are taken (a missing piece is \<^verbatim>\<open>undefined\<close>), and the row
  is kept when none of the four is missing or empty. A kept row is stored in
  \<^verbatim>\<open>this.tileCache\<close> as well.
\<close>

definition parseCsvLine :: "string \<Rightarrow> TileRecord option" where
  "parseCsvLine line =
     (case split CHR '','' line of
        p # rs # gs # bs # _ \<Rightarrow>
          if p \<noteq> [] \<and> rs \<noteq> [] \<and> gs \<noteq> [] \<and> bs \<noteq> []
          then Some \<lparr>r = parseInt (trim rs), g = parseInt (trim gs), b = parseInt (trim bs),
                     path = trim p\<rparr>
          else None
      | _ \<Rightarrow> None)"

fun loadLines ::
  "MosaicGenerator \<Rightarrow> TileRecord list \<Rightarrow> string list \<Rightarrow> TileRecord list \<times> MosaicGenerator" where
  "loadLines this tiles [] = (tiles, this)"
| "loadLines this tiles (line # lines) =
     (case parseCsvLine line of
        None \<Rightarrow> loadLines this tiles lines
      | Some tileData \<Rightarrow>
          loadLines (this\<lparr>tileCache := (tileCache this)(path tileData \<mapsto> tileData)\<rparr>)
            (tiles @ [tileData]) lines)"

text \<open>
  The file is given by its content, \<open>None\<close> when \<^verbatim>\<open>fs.readFile\<close> throws; the loader
  then returns \<^verbatim>\<open>null\<close>. The loop starts at index 1, after the header line.
\<close>

definition loadTileCacheFromCSV ::
  "MosaicGenerator \<Rightarrow> string option \<Rightarrow> TileRecord list option \<times> MosaicGenerator" where
  "loadTileCacheFromCSV this file =
     (case file of
        None \<Rightarrow> (None, this)
      | Some csvData \<Rightarrow>
          (let lines = split CHR 0x0A (trim csvData);
               (tiles, this') = loadLines this [] (drop 1 lines)
           in (Some tiles, this')))"

text \<open>
  The tiles for which writing and reading back is the identity: the path is not empty, has
  no comma and no line feed, neither starts nor ends with white space, and the channels
  are integers in 0..255.
\<close>

definition byteChannel :: "jsnum \<Rightarrow> bool" where
  "byteChannel c = (case c of Num n \<Rightarrow> 0 \<le> n \<and> n \<le> 255 | NaN \<Rightarrow> False)"

definition csvSafe :: "'a TileRecord_scheme \<Rightarrow> bool" where
  "csvSafe tile =
     (path tile \<noteq> [] \<and> CHR '','' \<notin> set (path tile) \<and> CHR 0x0A \<notin> set (path tile)
      \<and> \<not> isWhiteSpace (hd (path tile)) \<and> \<not> isWhiteSpace (last (path tile))
      \<and> byteChannel (r tile) \<and> byteChannel (g tile) \<and> byteChannel (b tile))"

definition isDecimal :: "char \<Rightarrow> bool" where
  "isDecimal c = (c \<in> set ''0123456789'')"

section \<open>Double-precision numbers\<close>

text \<open>
  The sizes of the grid and of the zoomed tiles come out of quotients and products of
  JavaScript numbers, which are IEEE 754 double-precision numbers: \<^verbatim>\<open>x / y\<close> and
  \<^verbatim>\<open>x * y\<close> are the exact quotient and product rounded to the nearest double, a tie
  going to the double whose last bit is 0. A finite double is the real number it stands
  for, and \<open>None\<close> stands for a result that is not finite (an infinity or NaN); the sign
  of a zero is not kept.

  \<open>exponentOf x\<close> is the exponent \<open>e\<close> of \<open>x\<close>, with \<open>2 ^ e \<le> \<bar>x\<bar> < 2 ^ (e + 1)\<close>,
  kept between \<open>-1022\<close> (below \<open>2 ^ -1022\<close> the doubles are subnormal and equally spaced)
  and \<open>1024\<close>; it is found by halving or doubling. The doubles next to \<open>x\<close> are the
  multiples of \<open>2 ^ (e - 52)\<close>, and a rounded value of \<open>2 ^ 1024\<close> or more is an infinity.
\<close>

fun exponentUp :: "nat \<Rightarrow> real \<Rightarrow> int" where
  "exponentUp 0 x = 0"
| "exponentUp (Suc n) x = (if 2 \<le> x then exponentUp n (x / 2) + 1 else 0)"

fun exponentDown :: "nat \<Rightarrow> real \<Rightarrow> int" where
  "exponentDown 0 x = 0"
| "exponentDown (Suc n) x = (if x < 1 then exponentDown n (2 * x) - 1 else 0)"

definition exponentOf :: "real \<Rightarrow> int" where
  "exponentOf x = (if 1 \<le> \<bar>x\<bar> then exponentUp 1024 \<bar>x\<bar> else exponentDown 1022 \<bar>x\<bar>)"

definition roundHalfEven :: "real \<Rightarrow> int" where
  "roundHalfEven x =
     (let n = \<lfloor>x\<rfloor>; d = x - of_int n
      in if d < 1 / 2 then n else if 1 / 2 < d then n + 1 else if even n then n else n + 1)"

definition toDouble :: "real \<Rightarrow> real option" where
  "toDouble x =
     (let ulp = 2 powi (exponentOf x - 52);
          y = of_int (roundHalfEven (x / ulp)) * ulp
      in if \<bar>y\<bar> < 2 ^ 1024 then Some y else None)"

text \<open>
  \<^verbatim>\<open>x / y\<close> and \<^verbatim>\<open>x * y\<close> on finite doubles. A division by zero gives an infinity or
  NaN. \<^verbatim>\<open>Math.round\<close> is exact: the nearest integer, a half going up.
\<close>

definition jsDivide :: "real \<Rightarrow> real \<Rightarrow> real option" where
  "jsDivide x y = (if y = 0 then None else toDouble (x / y))"

definition jsTimes :: "real \<Rightarrow> real \<Rightarrow> real option" where
  "jsTimes x y = toDouble (x * y)"

definition mathRound :: "real \<Rightarrow> int" where
  "mathRound x = \<lfloor>x + 1 / 2\<rfloor>"

section \<open>Grid Planner\<close>

text \<open>
  Sizes are integers, which doubles hold exactly below \<open>2 ^ 53\<close>. An option that is
  \<^verbatim>\<open>null\<close> or not given is \<open>None\<close>; \<^verbatim>\<open>a || b\<close> and \<^verbatim>\<open>a ? b : c\<close> take \<^verbatim>\<open>a\<close> to
  be absent when it is \<^verbatim>\<open>null\<close> or 0. The grid width is
  \<^verbatim>\<open>mosaicWidth || Math.round(outputWidth / tileSize)\<close>; the grid height is
  \<^verbatim>\<open>mosaicHeight || computedMosaicHeight\<close>, where without an output height
  \<^verbatim>\<open>computedMosaicHeight\<close> is \<^verbatim>\<open>Math.round(finalMosaicWidth * aspectRatio)\<close> and
  \<^verbatim>\<open>aspectRatio\<close> is the double \<^verbatim>\<open>inputMetadata.height / inputMetadata.width\<close>: the
  quotient is rounded, then the product is.
\<close>

definition truthy :: "int option \<Rightarrow> bool" where
  "truthy v = (case v of None \<Rightarrow> False | Some n \<Rightarrow> n \<noteq> 0)"

definition computedMosaicWidth :: "int option \<Rightarrow> int \<Rightarrow> int \<Rightarrow> int option" where
  "computedMosaicWidth mosaicWidth outputWidth tileSize =
     (if truthy mosaicWidth then mosaicWidth
      else map_option mathRound (jsDivide (real_of_int outputWidth) (real_of_int tileSize)))"

definition finalMosaicHeightOf ::
  "int option \<Rightarrow> int option \<Rightarrow> int \<Rightarrow> int \<Rightarrow> int \<Rightarrow> int \<Rightarrow> int option" where
  "finalMosaicHeightOf mosaicHeight outputHeight tileSize finalMosaicWidth inputHeight inputWidth =
     (let aspectRatio = jsDivide (real_of_int inputHeight) (real_of_int inputWidth);
          computedMosaicHeight =
            (case outputHeight of
               Some h \<Rightarrow>
                 if h \<noteq> 0
                 then map_option mathRound (jsDivide (real_of_int h) (real_of_int tileSize))
                 else Option.bind aspectRatio
                        (\<lambda>a. map_option mathRound (jsTimes (real_of_int finalMosaicWidth) a))
             | None \<Rightarrow>
                 Option.bind aspectRatio
                   (\<lambda>a. map_option mathRound (jsTimes (real_of_int finalMosaicWidth) a)))
      in if truthy mosaicHeight then mosaicHeight else computedMosaicHeight)"

section \<open>Tile assignment\<close>

text \<open>
  The first pair of loops of \<^verbatim>\<open>generateMosaic\<close>. \<^verbatim>\<open>inputData\<close> is the raw buffer
  of the source image resized to the grid; a read past its end is \<^verbatim>\<open>undefined\<close>,
  which the subtraction of \<^verbatim>\<open>colorDistanceSq\<close> turns into NaN. The grid sizes are
  natural numbers.
\<close>

definition bufferAt :: "nat list \<Rightarrow> nat \<Rightarrow> jsnum" where
  "bufferAt data i = (if i < length data then Num (int (data ! i)) else NaN)"

definition targetColorAt :: "nat list \<Rightarrow> nat \<Rightarrow> nat \<Rightarrow> nat \<Rightarrow> Color" where
  "targetColorAt inputData finalMosaicWidth x y =
     (let pixelIndex = (y * finalMosaicWidth + x) * 3
      in \<lparr>r = bufferAt inputData pixelIndex,
          g = bufferAt inputData (pixelIndex + 1),
          b = bufferAt inputData (pixelIndex + 2)\<rparr>)"

text \<open>
  \<^verbatim>\<open>usedTiles\<close> holds tile objects; the model holds their identities.
\<close>

definition availableTilesFor :: "bool \<Rightarrow> nat set \<Rightarrow> TileRef list \<Rightarrow> TileRef list" where
  "availableTilesFor allowReuse usedTiles tiles =
     (if \<not> allowReuse
      then (let availableTiles = filter (\<lambda>tile. ref tile \<notin> usedTiles) tiles
            in if availableTiles = [] then tiles else availableTiles)
      else tiles)"

definition mosaic_bestTile ::
  "MosaicGenerator \<Rightarrow> TileRef list \<Rightarrow> nat list \<Rightarrow> nat \<Rightarrow> bool \<Rightarrow> nat set \<Rightarrow> nat \<Rightarrow> nat
   \<Rightarrow> error + string \<times> nat set" where
  "mosaic_bestTile this tiles inputData finalMosaicWidth allowReuse usedTiles x y =
     (let targetColor = targetColorAt inputData finalMosaicWidth x y;
          availableTiles = availableTilesFor allowReuse usedTiles tiles
      in case findBestTile this targetColor availableTiles of
           Inl e \<Rightarrow> Inl e
         | Inr bestTile \<Rightarrow>
             Inr (path bestTile,
                  if \<not> allowReuse then insert (ref bestTile) usedTiles else usedTiles))"

fun mosaic_row ::
  "MosaicGenerator \<Rightarrow> TileRef list \<Rightarrow> nat list \<Rightarrow> nat \<Rightarrow> bool \<Rightarrow> nat
   \<Rightarrow> nat set \<Rightarrow> string list \<Rightarrow> nat list \<Rightarrow> error + string list \<times> nat set" where
  "mosaic_row this tiles inputData finalMosaicWidth allowReuse y usedTiles row [] =
     Inr (row, usedTiles)"
| "mosaic_row this tiles inputData finalMosaicWidth allowReuse y usedTiles row (x # xs) =
     (case mosaic_bestTile this tiles inputData finalMosaicWidth allowReuse usedTiles x y of
        Inl e \<Rightarrow> Inl e
      | Inr (tilePath, usedTiles') \<Rightarrow>
          mosaic_row this tiles inputData finalMosaicWidth allowReuse y usedTiles'
            (row @ [tilePath]) xs)"

fun mosaic_rows ::
  "MosaicGenerator \<Rightarrow> TileRef list \<Rightarrow> nat list \<Rightarrow> nat \<Rightarrow> bool
   \<Rightarrow> nat set \<Rightarrow> string list list \<Rightarrow> nat list \<Rightarrow> error + string list list \<times> nat set" where
  "mosaic_rows this tiles inputData finalMosaicWidth allowReuse usedTiles tileImages [] =
     Inr (tileImages, usedTiles)"
| "mosaic_rows this tiles inputData finalMosaicWidth allowReuse usedTiles tileImages (y # ys) =
     (case mosaic_row this tiles inputData finalMosaicWidth allowReuse y usedTiles []
             [0..<finalMosaicWidth] of
        Inl e \<Rightarrow> Inl e
      | Inr (row, usedTiles') \<Rightarrow>
          mosaic_rows this tiles inputData finalMosaicWidth allowReuse usedTiles'
            (tileImages @ [row]) ys)"

definition mosaic_tileImages ::
  "MosaicGenerator \<Rightarrow> TileRef list \<Rightarrow> nat list \<Rightarrow> nat \<Rightarrow> nat \<Rightarrow> bool
   \<Rightarrow> error + string list list" where
  "mosaic_tileImages this tiles inputData finalMosaicWidth finalMosaicHeight allowReuse =
     (case mosaic_rows this tiles inputData finalMosaicWidth allowReuse {} []
             [0..<finalMosaicHeight] of
        Inl e \<Rightarrow> Inl e
      | Inr (tileImages, usedTiles) \<Rightarrow> Inr tileImages)"

section \<open>Frame Compositor\<close>

text \<open>
  The image codec is a parameter: \<^verbatim>\<open>sharp(path).resize(n, n).raw().toBuffer()\<close> reads
  the outside world \<open>'w\<close>, may change it, and gives the raw bytes or throws an error.
  Calling it a second time on the same path need not give the same answer. Its argument
  is what the cell of the pattern holds: a path, or \<open>None\<close> for \<^verbatim>\<open>undefined\<close>.
\<close>

type_synonym 'w codec = "'w \<Rightarrow> string option \<Rightarrow> int \<Rightarrow> (error + nat list) \<times> 'w"

text \<open>
  \<^verbatim>\<open>tilePattern[y][x]\<close>, read before the \<^verbatim>\<open>try\<close>. The patterns that reach the
  compositors are the grids that the assignment has built, with a path at every cell
  the loops visit. Past the end of a row the read gives \<^verbatim>\<open>undefined\<close>; past the last
  row \<^verbatim>\<open>tilePattern[y]\<close> is \<^verbatim>\<open>undefined\<close> and reading its element throws a
  \<^verbatim>\<open>TypeError\<close>.
\<close>

definition patternAt :: "string list list \<Rightarrow> nat \<Rightarrow> nat \<Rightarrow> error + string option" where
  "patternAt tilePattern y x =
     (if y < length tilePattern
      then Inr (if x < length (tilePattern ! y) then Some (tilePattern ! y ! x) else None)
      else Inl (Error ''Cannot read properties of undefined''))"

text \<open>
  The body of the inner compositing loop of \<^verbatim>\<open>generateMosaic\<close>, a \<^verbatim>\<open>try\<close> with its
  \<^verbatim>\<open>catch\<close>: the buffer pushed to \<^verbatim>\<open>tileBuffers\<close> for one cell. The \<^verbatim>\<open>catch\<close>
  first chooses the replacement tile (\<open>mosaic_replacementTile\<close>), with the filter that
  \<^verbatim>\<open>findBestTile\<close> starts with (\<open>validTiles\<close>), then decodes it.
  \<^verbatim>\<open>this.corruptedTiles.add(tilePath)\<close> with an \<^verbatim>\<open>undefined\<close> path leaves the set of
  corrupted paths as it is: no tile has that path.
\<close>

definition mosaic_replacementTile ::
  "MosaicGenerator \<Rightarrow> 'a TileRecord_scheme list \<Rightarrow> nat list \<Rightarrow> nat \<Rightarrow> nat \<Rightarrow> nat
   \<Rightarrow> string option \<Rightarrow> error + 'a TileRecord_scheme \<times> MosaicGenerator" where
  "mosaic_replacementTile this tiles inputData finalMosaicWidth x y tilePath =
     (let this1 = (case tilePath of
                     None \<Rightarrow> this
                   | Some p \<Rightarrow> this\<lparr>corruptedTiles := insert p (corruptedTiles this)\<rparr>);
          targetColor = targetColorAt inputData finalMosaicWidth x y;
          availableTiles = validTiles this1 tiles
      in if availableTiles = []
         then Inl (Error ''No valid tiles remaining after filtering corrupted tiles'')
         else case findBestTile this1 targetColor availableTiles of
                Inl e \<Rightarrow> Inl e
              | Inr replacementTile \<Rightarrow> Inr (replacementTile, this1))"

definition mosaic_tileBuffer ::
  "'w codec \<Rightarrow> MosaicGenerator \<Rightarrow> 'w \<Rightarrow> 'a TileRecord_scheme list \<Rightarrow> nat list \<Rightarrow> nat
   \<Rightarrow> int \<Rightarrow> nat \<Rightarrow> nat \<Rightarrow> string option \<Rightarrow> error + nat list \<times> MosaicGenerator \<times> 'w" where
  "mosaic_tileBuffer sharp this w tiles inputData finalMosaicWidth tileSize x y tilePath =
     (case sharp w tilePath tileSize of
        (Inr tileBuffer, w1) \<Rightarrow> Inr (tileBuffer, this, w1)
      | (Inl err, w1) \<Rightarrow>
          (case mosaic_replacementTile this tiles inputData finalMosaicWidth x y tilePath of
             Inl e \<Rightarrow> Inl e
           | Inr (replacementTile, this1) \<Rightarrow>
               (case sharp w1 (Some (path replacementTile)) tileSize of
                  (Inr tileBuffer, w2) \<Rightarrow> Inr (tileBuffer, this1, w2)
                | (Inl e, w2) \<Rightarrow> Inl e)))"

fun mosaic_tileBuffers ::
  "'w codec \<Rightarrow> 'a TileRecord_scheme list \<Rightarrow> nat list \<Rightarrow> nat \<Rightarrow> int
   \<Rightarrow> string list list \<Rightarrow> nat \<Rightarrow> MosaicGenerator \<Rightarrow> 'w \<Rightarrow> nat list list \<Rightarrow> nat list
   \<Rightarrow> error + nat list list \<times> MosaicGenerator \<times> 'w" where
  "mosaic_tileBuffers sharp tiles inputData finalMosaicWidth tileSize tileImages y
     this w tileBuffers [] = Inr (tileBuffers, this, w)"
| "mosaic_tileBuffers sharp tiles inputData finalMosaicWidth tileSize tileImages y
     this w tileBuffers (x # xs) =
     (case patternAt tileImages y x of
        Inl e \<Rightarrow> Inl e
      | Inr tilePath \<Rightarrow>
          (case mosaic_tileBuffer sharp this w tiles inputData finalMosaicWidth tileSize
                  x y tilePath of
             Inl e \<Rightarrow> Inl e
           | Inr (tileBuffer, this', w') \<Rightarrow>
               mosaic_tileBuffers sharp tiles inputData finalMosaicWidth tileSize tileImages y
                 this' w' (tileBuffers @ [tileBuffer]) xs))"

text \<open>
  The outer compositing loop. Each row is kept as the list of its tile buffers; how
  their bytes are interleaved into \<^verbatim>\<open>rowBuffer\<close> and the encoding of the file are
  not part of the model.
\<close>

fun mosaic_rowBuffers ::
  "'w codec \<Rightarrow> 'a TileRecord_scheme list \<Rightarrow> nat list \<Rightarrow> nat \<Rightarrow> int \<Rightarrow> string list list
   \<Rightarrow> MosaicGenerator \<Rightarrow> 'w \<Rightarrow> nat list list list \<Rightarrow> nat list
   \<Rightarrow> error + nat list list list \<times> MosaicGenerator \<times> 'w" where
  "mosaic_rowBuffers sharp tiles inputData finalMosaicWidth tileSize tileImages
     this w rowBuffers [] = Inr (rowBuffers, this, w)"
| "mosaic_rowBuffers sharp tiles inputData finalMosaicWidth tileSize tileImages
     this w rowBuffers (y # ys) =
     (case mosaic_tileBuffers sharp tiles inputData finalMosaicWidth tileSize tileImages y
             this w [] [0..<finalMosaicWidth] of
        Inl e \<Rightarrow> Inl e
      | Inr (tileBuffers, this', w') \<Rightarrow>
          mosaic_rowBuffers sharp tiles inputData finalMosaicWidth tileSize tileImages
            this' w' (rowBuffers @ [tileBuffers]) ys)"

definition mosaic_composite ::
  "'w codec \<Rightarrow> MosaicGenerator \<Rightarrow> 'w \<Rightarrow> 'a TileRecord_scheme list \<Rightarrow> nat list \<Rightarrow> nat
   \<Rightarrow> nat \<Rightarrow> int \<Rightarrow> string list list \<Rightarrow> error + nat list list list \<times> MosaicGenerator \<times> 'w" where
  "mosaic_composite sharp this w tiles inputData finalMosaicWidth finalMosaicHeight tileSize
     tileImages =
     mosaic_rowBuffers sharp tiles inputData finalMosaicWidth tileSize tileImages
       this w [] [0..<finalMosaicHeight]"

text \<open>
  The same loops in \<^verbatim>\<open>generateZoomedMosaicFromPattern\<close>. Its \<^verbatim>\<open>catch\<close> allocates a
  buffer of \<^verbatim>\<open>newTileSize * newTileSize * 3\<close> bytes of value 128; it reads neither
  the corpus nor the set of corrupted tiles. A cell past the end of its row is given to
  the codec as \<^verbatim>\<open>undefined\<close>, inside the \<^verbatim>\<open>try\<close>.
\<close>

definition zoomed_tileBuffer ::
  "'w codec \<Rightarrow> 'w \<Rightarrow> int \<Rightarrow> string option \<Rightarrow> nat list \<times> 'w" where
  "zoomed_tileBuffer sharp w newTileSize tilePath =
     (case sharp w tilePath newTileSize of
        (Inr tileBuffer, w1) \<Rightarrow> (tileBuffer, w1)
      | (Inl err, w1) \<Rightarrow> (replicate (nat (newTileSize * newTileSize * 3)) 128, w1))"

fun zoomed_tileBuffers ::
  "'w codec \<Rightarrow> string list list \<Rightarrow> int \<Rightarrow> nat \<Rightarrow> 'w \<Rightarrow> nat list list \<Rightarrow> nat list
   \<Rightarrow> error + nat list list \<times> 'w" where
  "zoomed_tileBuffers sharp tilePattern newTileSize y w tileBuffers [] = Inr (tileBuffers, w)"
| "zoomed_tileBuffers sharp tilePattern newTileSize y w tileBuffers (x # xs) =
     (case patternAt tilePattern y x of
        Inl e \<Rightarrow> Inl e
      | Inr tilePath \<Rightarrow>
          (case zoomed_tileBuffer sharp w newTileSize tilePath of
             (tileBuffer, w') \<Rightarrow>
               zoomed_tileBuffers sharp tilePattern newTileSize y w'
                 (tileBuffers @ [tileBuffer]) xs))"

fun zoomed_rowBuffers ::
  "'w codec \<Rightarrow> string list list \<Rightarrow> nat \<Rightarrow> int \<Rightarrow> 'w \<Rightarrow> nat list list list \<Rightarrow> nat list
   \<Rightarrow> error + nat list list list \<times> 'w" where
  "zoomed_rowBuffers sharp tilePattern mosaicWidth newTileSize w rowBuffers [] =
     Inr (rowBuffers, w)"
| "zoomed_rowBuffers sharp tilePattern mosaicWidth newTileSize w rowBuffers (y # ys) =
     (case zoomed_tileBuffers sharp tilePattern newTileSize y w [] [0..<mosaicWidth] of
        Inl e \<Rightarrow> Inl e
      | Inr (tileBuffers, w') \<Rightarrow>
          zoomed_rowBuffers sharp tilePattern mosaicWidth newTileSize w'
            (rowBuffers @ [tileBuffers]) ys)"

definition zoomed_composite ::
  "'w codec \<Rightarrow> 'w \<Rightarrow> string list list \<Rightarrow> nat \<Rightarrow> nat \<Rightarrow> int
   \<Rightarrow> error + nat list list list \<times> 'w" where
  "zoomed_composite sharp w tilePattern mosaicWidth mosaicHeight newTileSize =
     zoomed_rowBuffers sharp tilePattern mosaicWidth newTileSize w [] [0..<mosaicHeight]"

section \<open>Zoom Sequence Controller\<close>

text \<open>
  \<^verbatim>\<open>Math.pow\<close> belongs to the JavaScript engine, and the language asks of it only an
  approximation of the power: it is a parameter, from a double and an exponent (the zoom
  step, a natural number) to a double or to a result that is not finite.
  \<open>correctlyRoundedPow\<close> is the \<^verbatim>\<open>Math.pow\<close> that rounds the exact power to the
  nearest double; at the exponent 1 it gives back its argument.
\<close>

type_synonym mathPow = "real \<Rightarrow> nat \<Rightarrow> real option"

definition correctlyRoundedPow :: mathPow where
  "correctlyRoundedPow x k = toDouble (x ^ k)"

text \<open>
  \<^verbatim>\<open>Math.round(baseTileSize * Math.pow(1 / zoomFactor, zoomStep))\<close> with
  \<^verbatim>\<open>baseTileSize = mosaicOptions.tileSize || defaultTileSize\<close>. The zoom factor is a
  double; the quotient and the product are rounded to doubles.
\<close>

definition zoomTileSize :: "mathPow \<Rightarrow> int option \<Rightarrow> real \<Rightarrow> nat \<Rightarrow> int option" where
  "zoomTileSize mathPow tileSize zoomFactor zoomStep =
     (let baseTileSize =
            (case tileSize of
               None \<Rightarrow> defaultTileSize
             | Some n \<Rightarrow> if n \<noteq> 0 then n else defaultTileSize)
      in case jsDivide 1 zoomFactor of
           None \<Rightarrow> None
         | Some q \<Rightarrow>
             (case mathPow q zoomStep of
                None \<Rightarrow> None
              | Some zoomMultiplier \<Rightarrow>
                  map_option mathRound (jsTimes (real_of_int baseTileSize) zoomMultiplier)))"

text \<open>
  The name of frame \<open>n\<close>:
  \<^verbatim>\<open>`${baseOutputPath}_${n.toString().padStart(4, '0')}${extension}`\<close>.
\<close>

definition frameOutputPath :: "string \<Rightarrow> string \<Rightarrow> nat \<Rightarrow> string" where
  "frameOutputPath baseOutputPath extension n =
     baseOutputPath @ ''_'' @ padStart 4 CHR ''0'' (natToString n) @ extension"

text \<open>
  The options of \<^verbatim>\<open>generateInfiniteZoomMosaic\<close>; \<open>maxIterations = None\<close> is
  \<^verbatim>\<open>null\<close>. The two renderers stand for \<^verbatim>\<open>generateMosaicWithTilePattern\<close>
  (source image, output file) and \<^verbatim>\<open>generateZoomedMosaicFromPattern\<close> (tile size,
  output file): each writes its frame into the world or throws.

  The state of the loop also keeps the list of the frames completed so far, as the
  messages of the loop report them: the iteration number that the loop computed, what
  was rendered (the base mosaic with the source image given to the renderer, or the zoom
  step with its number and the tile size given to the renderer), the value of the frame
  counter and the name of the file. A run that ends by an error returns the error
  together with the state at the \<^verbatim>\<open>catch\<close>: the counter is the number of the frame
  that failed.

  The frame counter and the number of zoom steps are natural numbers, which doubles hold
  exactly below \<open>2 ^ 53\<close>; there the rounded quotient
  \<^verbatim>\<open>globalFrameNumber / (zoomSteps + 1)\<close> has the integer part of the exact quotient and
  is below \<^verbatim>\<open>maxIterations\<close> when the exact quotient is, so the quotient is taken
  exactly.
\<close>

record ZoomOptions =
  zoomFactor :: real
  maxIterations :: "nat option"
  zoomSteps :: nat
  mosaicOptions_tileSize :: "int option"

type_synonym 'w mosaicRenderer = "'w \<Rightarrow> string \<Rightarrow> string \<Rightarrow> error + 'w"

type_synonym 'w zoomRenderer = "'w \<Rightarrow> int option \<Rightarrow> string \<Rightarrow> error + 'w"

datatype frameKind = BaseMosaic string | ZoomStep nat "int option"

type_synonym frame = "nat \<times> frameKind \<times> nat \<times> string"

record 'w ZoomRun =
  globalFrameNumber :: nat
  currentInputPath :: string
  frames :: "frame list"
  world :: 'w

type_synonym 'w zoomResult = "error \<times> 'w ZoomRun + 'w ZoomRun"

fun zoomStepsLoop ::
  "mathPow \<Rightarrow> 'w zoomRenderer \<Rightarrow> string \<Rightarrow> string \<Rightarrow> ZoomOptions \<Rightarrow> nat \<Rightarrow> 'w ZoomRun
   \<Rightarrow> nat list \<Rightarrow> 'w zoomResult" where
  "zoomStepsLoop mathPow renderZoom baseOutputPath extension options iterationNumber st [] =
     Inr st"
| "zoomStepsLoop mathPow renderZoom baseOutputPath extension options iterationNumber st
     (zoomStep # rest) =
     (let st1 = st\<lparr>globalFrameNumber := globalFrameNumber st + 1\<rparr>;
          zoomOutputPath = frameOutputPath baseOutputPath extension (globalFrameNumber st1);
          size = zoomTileSize mathPow (mosaicOptions_tileSize options) (zoomFactor options)
                   zoomStep
      in case renderZoom (world st1) size zoomOutputPath of
           Inl e \<Rightarrow> Inl (e, st1)
         | Inr w' \<Rightarrow>
             zoomStepsLoop mathPow renderZoom baseOutputPath extension options iterationNumber
               (st1\<lparr>frames := frames st1 @ [(iterationNumber, ZoomStep zoomStep size,
                                             globalFrameNumber st1, zoomOutputPath)],
                    world := w'\<rparr>)
               rest)"

text \<open>One pass through the body of the \<^verbatim>\<open>while\<close> loop.\<close>

definition zoomIteration ::
  "mathPow \<Rightarrow> 'w mosaicRenderer \<Rightarrow> 'w zoomRenderer \<Rightarrow> string \<Rightarrow> string \<Rightarrow> ZoomOptions
   \<Rightarrow> 'w ZoomRun \<Rightarrow> 'w zoomResult" where
  "zoomIteration mathPow renderMosaic renderZoom baseOutputPath extension options st =
     (let iterationNumber =
            nat \<lfloor>real (globalFrameNumber st) / real (zoomSteps options + 1)\<rfloor> + 1;
          st1 = st\<lparr>globalFrameNumber := globalFrameNumber st + 1\<rparr>;
          mosaicOutputPath = frameOutputPath baseOutputPath extension (globalFrameNumber st1)
      in case renderMosaic (world st1) (currentInputPath st1) mosaicOutputPath of
           Inl e \<Rightarrow> Inl (e, st1)
         | Inr w1 \<Rightarrow>
             (case zoomStepsLoop mathPow renderZoom baseOutputPath extension options
                     iterationNumber
                     (st1\<lparr>frames := frames st1 @ [(iterationNumber,
                                                   BaseMosaic (currentInputPath st1),
                                                   globalFrameNumber st1, mosaicOutputPath)],
                          world := w1\<rparr>)
                     [1..<zoomSteps options + 1] of
                Inl failure \<Rightarrow> Inl failure
              | Inr st2 \<Rightarrow>
                  Inr (st2\<lparr>currentInputPath :=
                             frameOutputPath baseOutputPath extension (globalFrameNumber st2)\<rparr>)))"

definition continueZoom :: "ZoomOptions \<Rightarrow> nat \<Rightarrow> bool" where
  "continueZoom options n =
     (case maxIterations options of
        None \<Rightarrow> True
      | Some m \<Rightarrow> real n / real (zoomSteps options + 1) < real m)"

text \<open>
  The \<^verbatim>\<open>while\<close> loop. With \<open>maxIterations = None\<close> it ends only by an error, so the
  result is optional: \<open>None\<close> is a run that never returns.
\<close>

partial_function (option) zoomLoop ::
  "mathPow \<Rightarrow> 'w mosaicRenderer \<Rightarrow> 'w zoomRenderer \<Rightarrow> string \<Rightarrow> string \<Rightarrow> ZoomOptions
   \<Rightarrow> 'w ZoomRun \<Rightarrow> 'w zoomResult option" where
  "zoomLoop mathPow renderMosaic renderZoom baseOutputPath extension options st =
     (if continueZoom options (globalFrameNumber st)
      then (case zoomIteration mathPow renderMosaic renderZoom baseOutputPath extension
                   options st of
              Inl failure \<Rightarrow> Some (Inl failure)
            | Inr st' \<Rightarrow>
                zoomLoop mathPow renderMosaic renderZoom baseOutputPath extension options st')
      else Some (Inr st))"

definition generateInfiniteZoomMosaic ::
  "mathPow \<Rightarrow> 'w mosaicRenderer \<Rightarrow> 'w zoomRenderer \<Rightarrow> 'w \<Rightarrow> string \<Rightarrow> string \<Rightarrow> string
   \<Rightarrow> ZoomOptions \<Rightarrow> 'w zoomResult option" where
  "generateInfiniteZoomMosaic mathPow renderMosaic renderZoom w inputImagePath baseOutputPath
     extension options =
     zoomLoop mathPow renderMosaic renderZoom baseOutputPath extension options
       \<lparr>globalFrameNumber = 0, currentInputPath = inputImagePath, frames = [], world = w\<rparr>"

text \<open>
  The frame sequence of the specification. Iteration \<open>i\<close> (counted from 1) with \<open>S\<close>
  zoom steps is made of the frames \<open>(i - 1) * (S + 1) + 1\<close> to \<open>i * (S + 1)\<close>: first
  the base mosaic, rendered from the source image in iteration 1 and from the last frame
  of the iteration before in the others, then the zoom steps 1 to \<open>S\<close>, step \<open>k\<close> with
  the tile size of step \<open>k\<close>. \<open>sequenceFrames\<close> lists the frames of the first \<open>M\<close>
  iterations.
\<close>

definition iterationFrames ::
  "mathPow \<Rightarrow> string \<Rightarrow> string \<Rightarrow> string \<Rightarrow> ZoomOptions \<Rightarrow> nat \<Rightarrow> frame list" where
  "iterationFrames mathPow inputImagePath baseOutputPath extension options i =
     (let S = zoomSteps options;
          first = (i - 1) * (S + 1) + 1;
          source = (if i = 1 then inputImagePath
                    else frameOutputPath baseOutputPath extension (first - 1))
      in (i, BaseMosaic source, first, frameOutputPath baseOutputPath extension first)
         # map (\<lambda>k. (i,
                      ZoomStep k (zoomTileSize mathPow (mosaicOptions_tileSize options)
                                    (zoomFactor options) k),
                      first + k, frameOutputPath baseOutputPath extension (first + k)))
             [1..<S + 1])"

definition sequenceFrames ::
  "mathPow \<Rightarrow> string \<Rightarrow> string \<Rightarrow> string \<Rightarrow> ZoomOptions \<Rightarrow> nat \<Rightarrow> frame list" where
  "sequenceFrames mathPow inputImagePath baseOutputPath extension options M =
     concat (map (iterationFrames mathPow inputImagePath baseOutputPath extension options)
               [1..<M + 1])"

text \<open>
  Rendering a list of frames one after the other with the two renderers, up to the
  first that fails: the result is the error with the frames completed before it and the
  world they left, or all the frames and the last world.
\<close>

fun renderFrame :: "'w mosaicRenderer \<Rightarrow> 'w zoomRenderer \<Rightarrow> 'w \<Rightarrow> frame \<Rightarrow> error + 'w" where
  "renderFrame renderMosaic renderZoom w (i, BaseMosaic source, n, file) =
     renderMosaic w source file"
| "renderFrame renderMosaic renderZoom w (i, ZoomStep k tileSize, n, file) =
     renderZoom w tileSize file"

fun renderFrames ::
  "'w mosaicRenderer \<Rightarrow> 'w zoomRenderer \<Rightarrow> 'w \<Rightarrow> frame list \<Rightarrow> frame list
   \<Rightarrow> error \<times> frame list \<times> 'w + frame list \<times> 'w" where
  "renderFrames renderMosaic renderZoom w completed [] = Inr (completed, w)"
| "renderFrames renderMosaic renderZoom w completed (f # fs) =
     (case renderFrame renderMosaic renderZoom w f of
        Inl e \<Rightarrow> Inl (e, completed, w)
      | Inr w' \<Rightarrow> renderFrames renderMosaic renderZoom w' (completed @ [f]) fs)"

text \<open>
  The result of a run agrees with a rendering: the same error or none, the same list of
  completed frames and the same world, and the frame counter is the number of frames
  completed, plus one for the frame that failed.
\<close>

definition rendered ::
  "'w zoomResult \<Rightarrow> error \<times> frame list \<times> 'w + frame list \<times> 'w \<Rightarrow> bool" where
  "rendered res rendering =
     (case rendering of
        Inr (fs, w') \<Rightarrow>
          (case res of
             Inr st \<Rightarrow> frames st = fs \<and> world st = w' \<and> globalFrameNumber st = length fs
           | Inl failure \<Rightarrow> False)
      | Inl (e, fs, w') \<Rightarrow>
          (case res of
             Inr st \<Rightarrow> False
           | Inl (e', st) \<Rightarrow>
               e' = e \<and> frames st = fs \<and> world st = w'
               \<and> globalFrameNumber st = length fs + 1))"

text \<open>Renderers that never throw.\<close>

definition neverFails :: "'w mosaicRenderer \<Rightarrow> 'w zoomRenderer \<Rightarrow> bool" where
  "neverFails renderMosaic renderZoom =
     ((\<forall>w a p. \<exists>w'. renderMosaic w a p = Inr w') \<and> (\<forall>w s p. \<exists>w'. renderZoom w s p = Inr w'))"

text \<open>A path that the matcher may choose: a path of the corpus that is not corrupted.\<close>

definition usablePath :: "MosaicGenerator \<Rightarrow> 'a TileRecord_scheme list \<Rightarrow> string \<Rightarrow> bool" where
  "usablePath this tiles p = (p \<notin> corruptedTiles this \<and> p \<in> path ` set tiles)"

section \<open>Properties of the Color Matcher\<close>

lemma colorDistanceSq_int:
  "intColor c1 \<Longrightarrow> intColor c2 \<Longrightarrow> colorDistanceSq c1 c2 = Num (distanceSquared c1 c2)"
  by (cases "r c1"; cases "g c1"; cases "b c1"; cases "r c2"; cases "g c2"; cases "b c2")
     (simp_all add: intColor_def colorDistanceSq_def distanceSquared_def power2_eq_square)

lemma findBestLoop_mem:
  "findBestLoop t best bd xs \<in> insert best (set xs)"
  by (induction xs arbitrary: best bd) (auto simp: Let_def)

lemma findBestLoop_first_min:
  assumes "intColor t" and "\<forall>x\<in>set (pre @ xs). intColor x"
    and "i < length pre" and "best = pre ! i"
    and "\<forall>j<length pre. distanceSquared t best \<le> distanceSquared t (pre ! j)"
    and "\<forall>j<i. distanceSquared t best < distanceSquared t (pre ! j)"
  shows "\<exists>k<length (pre @ xs).
           findBestLoop t best (Num (distanceSquared t best)) xs = (pre @ xs) ! k
         \<and> (\<forall>j<length (pre @ xs).
               distanceSquared t ((pre @ xs) ! k) \<le> distanceSquared t ((pre @ xs) ! j))
         \<and> (\<forall>j<k. distanceSquared t ((pre @ xs) ! k) < distanceSquared t ((pre @ xs) ! j))"
  using assms
proof (induction xs arbitrary: pre i best)
  case Nil
  then show ?case by auto
next
  case (Cons x xs)
  have ix: "intColor x" using Cons.prems(2) by simp
  have dx: "colorDistanceSq t x = Num (distanceSquared t x)"
    using colorDistanceSq_int[OF Cons.prems(1) ix] .
  let ?pre = "pre @ [x]"
  have all: "\<forall>y\<in>set (?pre @ xs). intColor y" using Cons.prems(2) by simp
  show ?case
  proof (cases "distanceSquared t x < distanceSquared t best")
    case True
    have a: "length pre < length ?pre" by simp
    have b: "x = ?pre ! length pre" by simp
    have c: "\<forall>j<length ?pre. distanceSquared t x \<le> distanceSquared t (?pre ! j)"
      using True Cons.prems(5) by (fastforce simp: nth_append less_Suc_eq)
    have d: "\<forall>j<length pre. distanceSquared t x < distanceSquared t (?pre ! j)"
      using True Cons.prems(5) by (fastforce simp: nth_append)
    from Cons.IH[OF Cons.prems(1) all a b c d] True dx
    show ?thesis by simp
  next
    case False
    have a: "i < length ?pre" using Cons.prems(3) by simp
    have b: "best = ?pre ! i" using Cons.prems(3,4) by (simp add: nth_append)
    have c: "\<forall>j<length ?pre. distanceSquared t best \<le> distanceSquared t (?pre ! j)"
      using False Cons.prems(5) by (auto simp: nth_append less_Suc_eq)
    have d: "\<forall>j<i. distanceSquared t best < distanceSquared t (?pre ! j)"
      using Cons.prems(3,6) by (auto simp: nth_append)
    from Cons.IH[OF Cons.prems(1) all a b c d] False dx
    show ?thesis by simp
  qed
qed

lemma findBestTile_Inr_valid:
  "findBestTile this t tiles = Inr best \<Longrightarrow> best \<in> set (validTiles this tiles)"
  using findBestLoop_mem[of t]
  by (auto simp: findBestTile_def split: list.splits)

lemma validTiles_all:
  "\<forall>tile\<in>set tiles. path tile \<notin> corruptedTiles this \<Longrightarrow> validTiles this tiles = tiles"
  by (simp add: validTiles_def)

text \<open>
  Claim C1, as the code has it. \<^verbatim>\<open>findBestTile\<close> first removes the candidates whose path
  is in the set of corrupted tiles. For a target and candidates with integer channels, and
  when a candidate is left, it returns the candidate at the first position \<open>k\<close> of the
  remaining list whose squared distance to the target is least: no remaining candidate is
  nearer, and every remaining candidate before it is strictly farther. The distance that
  the code computes is the sum of the squared differences of the channels. For the target
  (90,90,90) and the candidates (10,10,10), (200,200,200), (100,100,100), none corrupted,
  the result is (100,100,100).
\<close>

theorem findBestTile_nearest_first:
  fixes targetColor :: "'a Color_scheme" and tiles :: "'b TileRecord_scheme list"
  shows "(intColor targetColor \<and> (\<forall>tile\<in>set tiles. intColor tile) \<and> validTiles this tiles \<noteq> []
     \<longrightarrow> (\<exists>k<length (validTiles this tiles).
           findBestTile this targetColor tiles = Inr (validTiles this tiles ! k)
         \<and> (\<forall>j<length (validTiles this tiles).
               colorDistanceSq targetColor (validTiles this tiles ! j)
                 = Num (distanceSquared targetColor (validTiles this tiles ! j))
             \<and> distanceSquared targetColor (validTiles this tiles ! k)
                 \<le> distanceSquared targetColor (validTiles this tiles ! j))
         \<and> (\<forall>j<k. distanceSquared targetColor (validTiles this tiles ! k)
                    < distanceSquared targetColor (validTiles this tiles ! j))))
   \<and> ({p1, p2, p3} \<inter> corruptedTiles this = {}
     \<longrightarrow> findBestTile this \<lparr>r = Num 90, g = Num 90, b = Num 90\<rparr>
           [\<lparr>r = Num 10, g = Num 10, b = Num 10, path = p1\<rparr>,
            \<lparr>r = Num 200, g = Num 200, b = Num 200, path = p2\<rparr>,
            \<lparr>r = Num 100, g = Num 100, b = Num 100, path = p3\<rparr>]
         = Inr \<lparr>r = Num 100, g = Num 100, b = Num 100, path = p3\<rparr>)"
proof (intro conjI impI)
  assume h: "intColor targetColor \<and> (\<forall>tile\<in>set tiles. intColor tile) \<and> validTiles this tiles \<noteq> []"
  then obtain first rest where v: "validTiles this tiles = first # rest"
    by (cases "validTiles this tiles") auto
  have vi: "\<forall>x\<in>set ([first] @ rest). intColor x"
    using h v unfolding validTiles_def by (metis append_Cons append_Nil filter_is_subset subsetD)
  have fb: "findBestTile this targetColor tiles
      = Inr (findBestLoop targetColor first (Num (distanceSquared targetColor first)) rest)"
    using h vi by (simp add: findBestTile_def v colorDistanceSq_int)
  from findBestLoop_first_min[of targetColor "[first]" rest 0 first] h vi
  obtain k where k: "k < length ([first] @ rest)"
      "findBestLoop targetColor first (Num (distanceSquared targetColor first)) rest = ([first] @ rest) ! k"
      "\<forall>j<length ([first] @ rest).
               distanceSquared targetColor (([first] @ rest) ! k) \<le> distanceSquared targetColor (([first] @ rest) ! j)"
      "\<forall>j<k. distanceSquared targetColor (([first] @ rest) ! k) < distanceSquared targetColor (([first] @ rest) ! j)"
    by auto
  have ci: "\<forall>j<length (first # rest). colorDistanceSq targetColor ((first # rest) ! j)
                 = Num (distanceSquared targetColor ((first # rest) ! j))"
    using vi h by (metis append_Cons append_Nil colorDistanceSq_int nth_mem)
  show "\<exists>k<length (validTiles this tiles).
           findBestTile this targetColor tiles = Inr (validTiles this tiles ! k)
         \<and> (\<forall>j<length (validTiles this tiles).
               colorDistanceSq targetColor (validTiles this tiles ! j)
                 = Num (distanceSquared targetColor (validTiles this tiles ! j))
             \<and> distanceSquared targetColor (validTiles this tiles ! k)
                 \<le> distanceSquared targetColor (validTiles this tiles ! j))
         \<and> (\<forall>j<k. distanceSquared targetColor (validTiles this tiles ! k)
                    < distanceSquared targetColor (validTiles this tiles ! j))"
    unfolding v fb using k ci by (intro exI[of _ k]) simp
next
  assume "{p1, p2, p3} \<inter> corruptedTiles this = {}"
  then show "findBestTile this \<lparr>r = Num 90, g = Num 90, b = Num 90\<rparr>
           [\<lparr>r = Num 10, g = Num 10, b = Num 10, path = p1\<rparr>,
            \<lparr>r = Num 200, g = Num 200, b = Num 200, path = p2\<rparr>,
            \<lparr>r = Num 100, g = Num 100, b = Num 100, path = p3\<rparr>]
         = Inr \<lparr>r = Num 100, g = Num 100, b = Num 100, path = p3\<rparr>"
    by (simp add: findBestTile_def validTiles_def colorDistanceSq_def)
qed

theorem findBestTile_nearest_first_witness:
  "intColor \<lparr>r = Num 90, g = Num 90, b = Num 90\<rparr>
   \<and> intColor \<lparr>r = Num 10, g = Num 10, b = Num 10, path = ''t1.png''\<rparr>
   \<and> intColor \<lparr>r = Num 200, g = Num 200, b = Num 200, path = ''t2.png''\<rparr>
   \<and> intColor \<lparr>r = Num 100, g = Num 100, b = Num 100, path = ''t3.png''\<rparr>
   \<and> validTiles newMosaicGenerator
         [\<lparr>r = Num 10, g = Num 10, b = Num 10, path = ''t1.png''\<rparr>,
          \<lparr>r = Num 200, g = Num 200, b = Num 200, path = ''t2.png''\<rparr>,
          \<lparr>r = Num 100, g = Num 100, b = Num 100, path = ''t3.png''\<rparr>] \<noteq> []
   \<and> {''t1.png'', ''t2.png'', ''t3.png''} \<inter> corruptedTiles newMosaicGenerator = {}
   \<and> findBestTile newMosaicGenerator \<lparr>r = Num 90, g = Num 90, b = Num 90\<rparr>
         [\<lparr>r = Num 10, g = Num 10, b = Num 10, path = ''t1.png''\<rparr>,
          \<lparr>r = Num 200, g = Num 200, b = Num 200, path = ''t2.png''\<rparr>,
          \<lparr>r = Num 100, g = Num 100, b = Num 100, path = ''t3.png''\<rparr>]
       = Inr \<lparr>r = Num 100, g = Num 100, b = Num 100, path = ''t3.png''\<rparr>
   \<and> distanceSquared \<lparr>r = Num 90, g = Num 90, b = Num 90\<rparr>
         \<lparr>r = Num 10, g = Num 10, b = Num 10, path = ''t1.png''\<rparr> = 19200
   \<and> distanceSquared \<lparr>r = Num 90, g = Num 90, b = Num 90\<rparr>
         \<lparr>r = Num 200, g = Num 200, b = Num 200, path = ''t2.png''\<rparr> = 36300
   \<and> distanceSquared \<lparr>r = Num 90, g = Num 90, b = Num 90\<rparr>
         \<lparr>r = Num 100, g = Num 100, b = Num 100, path = ''t3.png''\<rparr> = 300"
  using findBestTile_nearest_first
    [of "\<lparr>r = Num 90, g = Num 90, b = Num 90\<rparr>"
        "[\<lparr>r = Num 10, g = Num 10, b = Num 10, path = ''t1.png''\<rparr>,
          \<lparr>r = Num 200, g = Num 200, b = Num 200, path = ''t2.png''\<rparr>,
          \<lparr>r = Num 100, g = Num 100, b = Num 100, path = ''t3.png''\<rparr>]"
        newMosaicGenerator "''t1.png''" "''t2.png''" "''t3.png''"]
  by (simp add: intColor_def validTiles_def newMosaicGenerator_def distanceSquared_def)

text \<open>
  Claim C1 as it is written fails when a candidate is corrupted: the candidate
  \<^verbatim>\<open>a.png\<close> has the colour of the target, distance 0, and is in the set of corrupted
  tiles; the result is \<^verbatim>\<open>b.png\<close>, at distance 24300.
\<close>

theorem findBestTile_skips_corrupted_nearest:
  "findBestTile (newMosaicGenerator\<lparr>corruptedTiles := {''a.png''}\<rparr>)
       \<lparr>r = Num 90, g = Num 90, b = Num 90\<rparr>
       [\<lparr>r = Num 90, g = Num 90, b = Num 90, path = ''a.png''\<rparr>,
        \<lparr>r = Num 0, g = Num 0, b = Num 0, path = ''b.png''\<rparr>]
     = Inr \<lparr>r = Num 0, g = Num 0, b = Num 0, path = ''b.png''\<rparr>
   \<and> colorDistanceSq \<lparr>r = Num 90, g = Num 90, b = Num 90\<rparr>
         \<lparr>r = Num 90, g = Num 90, b = Num 90, path = ''a.png''\<rparr> = Num 0
   \<and> colorDistanceSq \<lparr>r = Num 90, g = Num 90, b = Num 90\<rparr>
         \<lparr>r = Num 0, g = Num 0, b = Num 0, path = ''b.png''\<rparr> = Num 24300"
  by (simp add: findBestTile_def validTiles_def colorDistanceSq_def newMosaicGenerator_def)

text \<open>
  Claim C8. \<^verbatim>\<open>findBestTile\<close> throws exactly when no candidate is left after the
  corrupted ones are removed; the error it throws is always the one with the message
  \<^verbatim>\<open>No valid tiles available - all tiles are corrupted\<close>; and with a candidate that is
  not corrupted it returns one of the candidates.
\<close>

theorem findBestTile_error_iff_no_valid:
  fixes targetColor :: "'a Color_scheme" and tiles :: "'b TileRecord_scheme list"
  shows "((\<exists>e. findBestTile this targetColor tiles = Inl e) \<longleftrightarrow> validTiles this tiles = [])
   \<and> (\<forall>e. findBestTile this targetColor tiles = Inl e
          \<longrightarrow> e = Error ''No valid tiles available - all tiles are corrupted''
            \<and> prefix ''No valid tiles available'' (message e))
   \<and> ((\<exists>tile\<in>set tiles. path tile \<notin> corruptedTiles this)
          \<longrightarrow> (\<exists>best. findBestTile this targetColor tiles = Inr best \<and> best \<in> set tiles))"
proof (intro conjI)
  show "(\<exists>e. findBestTile this targetColor tiles = Inl e) \<longleftrightarrow> validTiles this tiles = []"
    by (simp add: findBestTile_def split: list.split)
  show "\<forall>e. findBestTile this targetColor tiles = Inl e
          \<longrightarrow> e = Error ''No valid tiles available - all tiles are corrupted''
            \<and> prefix ''No valid tiles available'' (message e)"
    by (auto simp: findBestTile_def prefix_def split: list.splits)
  show "(\<exists>tile\<in>set tiles. path tile \<notin> corruptedTiles this)
          \<longrightarrow> (\<exists>best. findBestTile this targetColor tiles = Inr best \<and> best \<in> set tiles)"
  proof
    assume "\<exists>tile\<in>set tiles. path tile \<notin> corruptedTiles this"
    then obtain first rest where v: "validTiles this tiles = first # rest"
      unfolding validTiles_def by (metis filter_empty_conv neq_Nil_conv)
    have "findBestLoop targetColor first (colorDistanceSq targetColor first) rest \<in> set (validTiles this tiles)"
      using findBestLoop_mem[of targetColor first _ rest] v by simp
    moreover have "set (validTiles this tiles) \<subseteq> set tiles"
      by (simp add: validTiles_def)
    ultimately show "\<exists>best. findBestTile this targetColor tiles = Inr best \<and> best \<in> set tiles"
      by (auto simp: findBestTile_def v)
  qed
qed

theorem findBestTile_error_iff_no_valid_witness:
  "validTiles (newMosaicGenerator\<lparr>corruptedTiles := {''a.png''}\<rparr>)
       [\<lparr>r = Num 90, g = Num 90, b = Num 90, path = ''a.png''\<rparr>] = []
   \<and> findBestTile (newMosaicGenerator\<lparr>corruptedTiles := {''a.png''}\<rparr>)
         \<lparr>r = Num 90, g = Num 90, b = Num 90\<rparr>
         [\<lparr>r = Num 90, g = Num 90, b = Num 90, path = ''a.png''\<rparr>]
       = Inl (Error ''No valid tiles available - all tiles are corrupted'')
   \<and> ''b.png'' \<notin> corruptedTiles (newMosaicGenerator\<lparr>corruptedTiles := {''a.png''}\<rparr>)
   \<and> findBestTile (newMosaicGenerator\<lparr>corruptedTiles := {''a.png''}\<rparr>)
         \<lparr>r = Num 90, g = Num 90, b = Num 90\<rparr>
         [\<lparr>r = Num 90, g = Num 90, b = Num 90, path = ''a.png''\<rparr>,
          \<lparr>r = Num 0, g = Num 0, b = Num 0, path = ''b.png''\<rparr>]
       = Inr \<lparr>r = Num 0, g = Num 0, b = Num 0, path = ''b.png''\<rparr>"
  using findBestTile_error_iff_no_valid
    [of "newMosaicGenerator\<lparr>corruptedTiles := {''a.png''}\<rparr>"
        "\<lparr>r = Num 90, g = Num 90, b = Num 90\<rparr>"
        "[\<lparr>r = Num 90, g = Num 90, b = Num 90, path = ''a.png''\<rparr>]"]
    findBestTile_error_iff_no_valid
    [of "newMosaicGenerator\<lparr>corruptedTiles := {''a.png''}\<rparr>"
        "\<lparr>r = Num 90, g = Num 90, b = Num 90\<rparr>"
        "[\<lparr>r = Num 90, g = Num 90, b = Num 90, path = ''a.png''\<rparr>,
          \<lparr>r = Num 0, g = Num 0, b = Num 0, path = ''b.png''\<rparr>]"]
  by (simp add: findBestTile_def validTiles_def newMosaicGenerator_def colorDistanceSq_def)

section \<open>Properties of the cache file\<close>

lemma split_no_sep: "sep \<notin> set s \<Longrightarrow> split sep s = [s]"
  by (induction s) auto

lemma split_append_sep:
  "sep \<notin> set a \<Longrightarrow> split sep (a @ sep # rest) = a # split sep rest"
  by (induction a) auto

lemma split_join:
  "ls \<noteq> [] \<Longrightarrow> \<forall>l\<in>set ls. sep \<notin> set l \<Longrightarrow> split sep (join sep ls) = ls"
proof (induction sep ls rule: join.induct)
  case (1 sep)
  then show ?case by simp
next
  case (2 sep x)
  then show ?case by (simp add: split_no_sep)
next
  case (3 sep x y ys)
  then show ?case by (simp add: split_append_sep)
qed

lemma digitChar_value:
  "d < 10 \<Longrightarrow> digitValue 10 (digitChar d) = Some d"
proof -
  assume "d < 10"
  then have "d \<in> {0,1,2,3,4,5,6,7,8,9}" by auto
  then show ?thesis
    by (auto simp: digitChar_def digitValue_def)
qed

lemma digitChar_decimal: "d < 10 \<Longrightarrow> isDecimal (digitChar d)"
proof -
  assume "d < 10"
  then have "d \<in> {0,1,2,3,4,5,6,7,8,9}" by auto
  then show ?thesis
    by (auto simp: digitChar_def isDecimal_def)
qed

lemma natToString_decimal: "\<forall>c\<in>set (natToString n). isDecimal c"
proof (induction n rule: natToString.induct)
  case (1 n)
  show ?case
  proof (cases "n < 10")
    case True
    then show ?thesis by (subst natToString.simps) (simp add: digitChar_decimal)
  next
    case False
    have "n mod 10 < 10" by simp
    then have "isDecimal (digitChar (n mod 10))" by (rule digitChar_decimal)
    with False 1 show ?thesis by (subst natToString.simps) auto
  qed
qed

lemma natToString_not_Nil: "natToString n \<noteq> []"
  by (subst natToString.simps) simp

lemma isDecimal_plain:
  "isDecimal c \<Longrightarrow> \<not> isWhiteSpace c \<and> c \<noteq> CHR ''-'' \<and> c \<noteq> CHR ''+''
     \<and> c \<noteq> CHR ''x'' \<and> c \<noteq> CHR ''X'' \<and> c \<noteq> CHR '','' \<and> c \<noteq> CHR 0x0A
     \<and> (\<exists>d. digitValue 10 c = Some d)"
  by (auto simp: isDecimal_def isWhiteSpace_def digitValue_def)

lemma digitsValue_append:
  "\<forall>c\<in>set xs. isDecimal c \<Longrightarrow>
     digitsValue 10 acc (xs @ ys) = digitsValue 10 (digitsValue 10 acc xs) ys"
proof (induction xs arbitrary: acc)
  case Nil
  then show ?case by simp
next
  case (Cons x xs)
  then have "isDecimal x" by simp
  then obtain d where "digitValue 10 x = Some d" using isDecimal_plain by blast
  then show ?case using Cons by simp
qed

lemma digitsValue_natToString:
  "digitsValue 10 acc (natToString n) = acc * 10 ^ length (natToString n) + n"
proof (induction n arbitrary: acc rule: natToString.induct)
  case (1 n)
  show ?case
  proof (cases "n < 10")
    case True
    then show ?thesis
      by (subst (1 2) natToString.simps) (simp add: digitChar_value)
  next
    case False
    have m: "n mod 10 < 10" by simp
    have "digitsValue 10 acc (natToString n)
        = digitsValue 10 acc (natToString (n div 10) @ [digitChar (n mod 10)])"
      using False by (subst natToString.simps) simp
    also have "\<dots> = digitsValue 10 (digitsValue 10 acc (natToString (n div 10))) [digitChar (n mod 10)]"
      by (rule digitsValue_append) (rule natToString_decimal)
    also have "\<dots> = (acc * 10 ^ length (natToString (n div 10)) + n div 10) * 10 + n mod 10"
      using 1[OF False] m by (simp add: digitChar_value)
    also have "\<dots> = acc * 10 ^ length (natToString n) + n"
      using False by (subst (2) natToString.simps) (simp add: algebra_simps)
    finally show ?thesis .
  qed
qed

lemma trimStart_id: "s \<noteq> [] \<Longrightarrow> \<not> isWhiteSpace (hd s) \<Longrightarrow> trimStart s = s"
  by (cases s) (auto simp: trimStart_def)

lemma trimEnd_id: "s \<noteq> [] \<Longrightarrow> \<not> isWhiteSpace (last s) \<Longrightarrow> trimEnd s = s"
proof -
  assume a: "s \<noteq> []" "\<not> isWhiteSpace (last s)"
  then have "rev s \<noteq> []" "\<not> isWhiteSpace (hd (rev s))" by (simp_all add: hd_rev)
  then have "dropWhile isWhiteSpace (rev s) = rev s" by (cases "rev s") auto
  then show ?thesis by (simp add: trimEnd_def)
qed

lemma trim_id: "s \<noteq> [] \<Longrightarrow> \<not> isWhiteSpace (hd s) \<Longrightarrow> \<not> isWhiteSpace (last s) \<Longrightarrow> trim s = s"
  by (simp add: trim_def trimStart_id trimEnd_id)

lemma parseInt_decimal:
  assumes "s \<noteq> []" "\<forall>c\<in>set s. isDecimal c"
  shows "parseInt s = Num (int (digitsValue 10 0 s))"
proof -
  obtain c cs where s: "s = c # cs" using assms(1) by (cases s) auto
  have c: "isDecimal c" using assms(2) s by simp
  note pc = isDecimal_plain[OF c]
  have ts: "trimStart s = s" using pc s by (simp add: trimStart_def)
  have pd: "parseDigits 10 1 s = Num (int (digitsValue 10 0 s))"
    using pc unfolding parseDigits_def s by (auto simp del: digitsValue.simps)
  have "stripPrefix 1 s = parseDigits 10 1 s"
  proof (cases cs)
    case Nil
    then show ?thesis by (simp add: stripPrefix_def s)
  next
    case (Cons cx rest)
    then have "isDecimal cx" using assms(2) s by simp
    then have "cx \<noteq> CHR ''x'' \<and> cx \<noteq> CHR ''X''" using isDecimal_plain by blast
    then show ?thesis by (simp add: stripPrefix_def s Cons)
  qed
  then show ?thesis using pc pd by (simp add: parseInt_def ts) (simp add: s)
qed

lemma parseInt_natToString: "parseInt (natToString n) = Num (int n)"
  using parseInt_decimal[OF natToString_not_Nil natToString_decimal, of n]
  by (simp add: digitsValue_natToString)


lemma natToString_ends:
  "\<not> isWhiteSpace (hd (natToString n)) \<and> \<not> isWhiteSpace (last (natToString n))"
  using natToString_decimal[of n] natToString_not_Nil[of n] isDecimal_plain
  by (metis hd_in_set last_in_set)

lemma natToString_no_sep:
  "CHR '','' \<notin> set (natToString n) \<and> CHR 0x0A \<notin> set (natToString n)"
  using natToString_decimal[of n] isDecimal_plain by blast

lemma byteChannel_roundtrip:
  assumes "byteChannel c"
  shows "parseInt (trim (numToString c)) = c"
    and "numToString c \<noteq> []"
    and "CHR '','' \<notin> set (numToString c)"
    and "CHR 0x0A \<notin> set (numToString c)"
    and "\<not> isWhiteSpace (last (numToString c))"
proof -
  obtain n where n: "c = Num n" "0 \<le> n" using assms by (cases c) (auto simp: byteChannel_def)
  have s: "numToString c = natToString (nat n)" using n by (simp add: numToString_def)
  have "parseInt (trim (natToString (nat n))) = Num (int (nat n))"
    by (simp add: trim_id natToString_not_Nil natToString_ends parseInt_natToString)
  then show "parseInt (trim (numToString c)) = c"
    unfolding s using n by simp
  show "numToString c \<noteq> []" by (simp add: s natToString_not_Nil)
  show "CHR '','' \<notin> set (numToString c)" by (simp add: s natToString_no_sep)
  show "CHR 0x0A \<notin> set (numToString c)" by (simp add: s natToString_no_sep)
  show "\<not> isWhiteSpace (last (numToString c))" by (simp add: s natToString_ends)
qed

lemma parseCsvLine_csvLine:
  fixes tile :: TileRecord
  assumes "csvSafe tile"
  shows "parseCsvLine (csvLine tile) = Some tile"
proof -
  have p: "path tile \<noteq> []" "CHR '','' \<notin> set (path tile)"
      "trim (path tile) = path tile"
    using assms by (simp_all add: csvSafe_def trim_id)
  have ch: "byteChannel (r tile)" "byteChannel (g tile)" "byteChannel (b tile)"
    using assms by (simp_all add: csvSafe_def)
  have "csvLine tile = path tile @ CHR '','' # (numToString (r tile) @ CHR '','' #
          (numToString (g tile) @ CHR '','' # numToString (b tile)))"
    by (simp add: csvLine_def)
  then have "split CHR '','' (csvLine tile)
      = [path tile, numToString (r tile), numToString (g tile), numToString (b tile)]"
    using p(2) byteChannel_roundtrip(3)[OF ch(1)] byteChannel_roundtrip(3)[OF ch(2)]
      byteChannel_roundtrip(3)[OF ch(3)]
    by (simp add: split_append_sep split_no_sep del: split.simps)
  then show ?thesis
    using p byteChannel_roundtrip(1,2)[OF ch(1)] byteChannel_roundtrip(1,2)[OF ch(2)]
      byteChannel_roundtrip(1,2)[OF ch(3)]
    by (simp add: parseCsvLine_def)
qed

lemma csvLine_shape:
  assumes "csvSafe tile"
  shows "csvLine tile \<noteq> []" and "CHR 0x0A \<notin> set (csvLine tile)"
    and "\<not> isWhiteSpace (last (csvLine tile))"
proof -
  have ch: "byteChannel (r tile)" "byteChannel (g tile)" "byteChannel (b tile)"
    and p: "CHR 0x0A \<notin> set (path tile)"
    using assms by (simp_all add: csvSafe_def)
  show "csvLine tile \<noteq> []" using assms by (simp add: csvLine_def csvSafe_def)
  show "CHR 0x0A \<notin> set (csvLine tile)"
    using p byteChannel_roundtrip(4)[OF ch(1)] byteChannel_roundtrip(4)[OF ch(2)]
      byteChannel_roundtrip(4)[OF ch(3)]
    by (simp add: csvLine_def)
  show "\<not> isWhiteSpace (last (csvLine tile))"
    using byteChannel_roundtrip(2,5)[OF ch(3)] by (simp add: csvLine_def)
qed

lemma hd_join: "x \<noteq> [] \<Longrightarrow> hd (join sep (x # xs)) = hd x"
  by (cases xs) auto

lemma join_not_Nil: "x \<noteq> [] \<Longrightarrow> join sep (x # xs) \<noteq> []"
  by (cases xs) auto

lemma join_last_not_Nil:
  "ls \<noteq> [] \<Longrightarrow> last ls \<noteq> [] \<Longrightarrow> join sep ls \<noteq> []"
  by (induction sep ls rule: join.induct) auto

lemma last_join:
  "ls \<noteq> [] \<Longrightarrow> last ls \<noteq> [] \<Longrightarrow> last (join sep ls) = last (last ls)"
proof (induction sep ls rule: join.induct)
  case (3 sep x y ys)
  then have "join sep (y # ys) \<noteq> []" by (intro join_last_not_Nil) simp_all
  with 3 show ?case by simp
qed simp_all

lemma loadLines_collect:
  "\<forall>tile\<in>set tiles. csvSafe tile \<Longrightarrow>
     fst (loadLines this acc (map csvLine tiles)) = acc @ tiles"
  by (induction tiles arbitrary: this acc) (simp_all add: parseCsvLine_csvLine)

lemma saved_text_trim:
  assumes "\<forall>tile\<in>set tiles. csvSafe tile"
  shows "trim (saveTileCacheToCSV tiles) = saveTileCacheToCSV tiles"
proof -
  let ?ls = "''path,r,g,b'' # map csvLine tiles"
  have ne: "join CHR 0x0A ?ls \<noteq> []" by (rule join_not_Nil) simp
  have h: "\<not> isWhiteSpace (hd (join CHR 0x0A ?ls))"
    by (subst hd_join) (simp_all add: isWhiteSpace_def)
  have ll: "last ?ls \<noteq> [] \<and> \<not> isWhiteSpace (last (last ?ls))"
  proof (cases tiles rule: rev_cases)
    case Nil
    then show ?thesis by (simp add: isWhiteSpace_def)
  next
    case (snoc ts t)
    then have "csvSafe t" using assms by simp
    then show ?thesis using snoc csvLine_shape(1,3)[of t] by simp
  qed
  have "\<not> isWhiteSpace (last (join CHR 0x0A ?ls))"
    using ll by (subst last_join) simp_all
  then show ?thesis unfolding saveTileCacheToCSV_def using ne h by (rule_tac trim_id)
qed

lemma saved_text_lines:
  assumes "\<forall>tile\<in>set tiles. csvSafe tile"
  shows "split CHR 0x0A (saveTileCacheToCSV tiles) = ''path,r,g,b'' # map csvLine tiles"
  unfolding saveTileCacheToCSV_def
proof (rule split_join)
  show "''path,r,g,b'' # map csvLine tiles \<noteq> []" by simp
  show "\<forall>l\<in>set (''path,r,g,b'' # map csvLine tiles). CHR 0x0A \<notin> set l"
    using assms csvLine_shape(2) by auto
qed

text \<open>
  Claim C5, as the code has it. For every list of tile records whose paths are not empty,
  hold no comma and no line feed and neither start nor end with white space, and whose
  channels are integers in 0..255, the text that \<^verbatim>\<open>saveTileCacheToCSV\<close> writes is read
  back by \<^verbatim>\<open>loadTileCacheFromCSV\<close> as the same list: as many records, with the same
  path, r, g and b, in the same order.
\<close>

theorem cache_roundtrip:
  fixes tiles :: "TileRecord list"
  assumes "\<forall>tile\<in>set tiles. csvSafe tile"
  shows "fst (loadTileCacheFromCSV this (Some (saveTileCacheToCSV tiles))) = Some tiles"
proof -
  have "fst (loadLines this [] (map csvLine tiles)) = tiles"
    using loadLines_collect[OF assms, of this "[]"] by simp
  then show ?thesis
    by (simp add: loadTileCacheFromCSV_def saved_text_trim[OF assms] saved_text_lines[OF assms]
        split_beta)
qed

theorem cache_roundtrip_witness:
  "csvSafe \<lparr>r = Num 10, g = Num 20, b = Num 30, path = ''tiles/photo 1.jpg''\<rparr>
   \<and> csvSafe \<lparr>r = Num 0, g = Num 255, b = Num 7, path = ''tiles/sub/b.png''\<rparr>
   \<and> fst (loadTileCacheFromCSV newMosaicGenerator
         (Some (saveTileCacheToCSV
            [\<lparr>r = Num 10, g = Num 20, b = Num 30, path = ''tiles/photo 1.jpg''\<rparr>,
             \<lparr>r = Num 0, g = Num 255, b = Num 7, path = ''tiles/sub/b.png''\<rparr>])))
       = Some [\<lparr>r = Num 10, g = Num 20, b = Num 30, path = ''tiles/photo 1.jpg''\<rparr>,
               \<lparr>r = Num 0, g = Num 255, b = Num 7, path = ''tiles/sub/b.png''\<rparr>]"
  using cache_roundtrip
    [of "[\<lparr>r = Num 10, g = Num 20, b = Num 30, path = ''tiles/photo 1.jpg''\<rparr>,
          \<lparr>r = Num 0, g = Num 255, b = Num 7, path = ''tiles/sub/b.png''\<rparr>]"
        newMosaicGenerator]
  by (simp add: csvSafe_def byteChannel_def isWhiteSpace_def)

text \<open>
  Claim C5 as it is written fails for a path with a comma: the record
  \<^verbatim>\<open>photo,1.jpg\<close> with the colour (10,20,30) is written as the line
  \<^verbatim>\<open>photo,1.jpg,10,20,30\<close> and read back as the path \<^verbatim>\<open>photo\<close> with the colour
  (1,10,20).
\<close>

theorem cache_roundtrip_comma_path:
  "saveTileCacheToCSV [\<lparr>r = Num 10, g = Num 20, b = Num 30, path = ''photo,1.jpg''\<rparr>]
     = ''path,r,g,b'' @ [CHR 0x0A] @ ''photo,1.jpg,10,20,30''
   \<and> fst (loadTileCacheFromCSV newMosaicGenerator
         (Some (saveTileCacheToCSV
            [\<lparr>r = Num 10, g = Num 20, b = Num 30, path = ''photo,1.jpg''\<rparr>])))
       = Some [\<lparr>r = Num 1, g = Num 10, b = Num 20, path = ''photo''\<rparr>]"
  by code_simp

section \<open>Properties of the tile assignment\<close>

lemma availableTilesFor_subset:
  "set (availableTilesFor allowReuse usedTiles tiles) \<subseteq> set tiles"
  by (auto simp: availableTilesFor_def Let_def)

lemma availableTilesFor_not_Nil:
  "tiles \<noteq> [] \<Longrightarrow> availableTilesFor allowReuse usedTiles tiles \<noteq> []"
  by (auto simp: availableTilesFor_def Let_def)

lemma mosaic_bestTile_usable:
  assumes "mosaic_bestTile this tiles inputData W allowReuse usedTiles x y = Inr (p, usedTiles')"
  shows "usablePath this tiles p"
proof -
  let ?av = "availableTilesFor allowReuse usedTiles tiles"
  from assms obtain best where b: "findBestTile this (targetColorAt inputData W x y) ?av = Inr best"
    and p: "p = path best"
    by (auto simp: mosaic_bestTile_def split: sum.splits)
  from findBestTile_Inr_valid[OF b] have "best \<in> set ?av" "path best \<notin> corruptedTiles this"
    by (simp_all add: validTiles_def)
  with availableTilesFor_subset[of allowReuse usedTiles tiles] p show ?thesis
    by (auto simp: usablePath_def)
qed

lemma mosaic_row_usable:
  "mosaic_row this tiles inputData W allowReuse y usedTiles row xs = Inr (row', usedTiles')
   \<Longrightarrow> \<forall>p\<in>set row. usablePath this tiles p
   \<Longrightarrow> (\<forall>p\<in>set row'. usablePath this tiles p) \<and> length row' = length row + length xs"
proof (induction xs arbitrary: usedTiles row)
  case Nil
  then show ?case by simp
next
  case (Cons x xs)
  from Cons.prems(1) obtain p u where c: "mosaic_bestTile this tiles inputData W allowReuse usedTiles x y = Inr (p, u)"
    and r: "mosaic_row this tiles inputData W allowReuse y u (row @ [p]) xs = Inr (row', usedTiles')"
    by (auto split: sum.splits)
  have "\<forall>q\<in>set (row @ [p]). usablePath this tiles q"
    using Cons.prems(2) mosaic_bestTile_usable[OF c] by simp
  from Cons.IH[OF r this] show ?case by simp
qed

lemma mosaic_rows_usable:
  "mosaic_rows this tiles inputData W allowReuse usedTiles tileImages ys = Inr (tileImages', usedTiles')
   \<Longrightarrow> \<forall>row\<in>set tileImages. length row = W \<and> (\<forall>p\<in>set row. usablePath this tiles p)
   \<Longrightarrow> (\<forall>row\<in>set tileImages'. length row = W \<and> (\<forall>p\<in>set row. usablePath this tiles p))
       \<and> length tileImages' = length tileImages + length ys"
proof (induction ys arbitrary: usedTiles tileImages)
  case Nil
  then show ?case by simp
next
  case (Cons y ys)
  from Cons.prems(1) obtain row u where
      c: "mosaic_row this tiles inputData W allowReuse y usedTiles [] [0..<W] = Inr (row, u)"
    and r: "mosaic_rows this tiles inputData W allowReuse u (tileImages @ [row]) ys = Inr (tileImages', usedTiles')"
    by (auto split: sum.splits)
  from mosaic_row_usable[OF c] have "(\<forall>p\<in>set row. usablePath this tiles p) \<and> length row = W"
    by simp
  then have "\<forall>row\<in>set (tileImages @ [row]). length row = W \<and> (\<forall>p\<in>set row. usablePath this tiles p)"
    using Cons.prems(2) by simp
  from Cons.IH[OF r this] show ?case by simp
qed

lemma mosaic_tileImages_usable:
  assumes "mosaic_tileImages this tiles inputData W H allowReuse = Inr tileImages"
  shows "(\<forall>row\<in>set tileImages. length row = W \<and> (\<forall>p\<in>set row. usablePath this tiles p))
       \<and> length tileImages = H"
proof -
  from assms obtain u where
    "mosaic_rows this tiles inputData W allowReuse {} [] [0..<H] = Inr (tileImages, u)"
    by (auto simp: mosaic_tileImages_def split: sum.splits)
  from mosaic_rows_usable[OF this] show ?thesis by simp
qed

lemma mosaic_replacementTile_usable:
  assumes "mosaic_replacementTile this tiles inputData W x y (Some tilePath) = Inr (rep, this1)"
  shows "corruptedTiles this1 = insert tilePath (corruptedTiles this)
       \<and> path rep \<notin> corruptedTiles this1 \<and> rep \<in> set tiles"
proof -
  let ?g = "this\<lparr>corruptedTiles := insert tilePath (corruptedTiles this)\<rparr>"
  from assms have t: "this1 = ?g"
    and f: "findBestTile ?g (targetColorAt inputData W x y) (validTiles ?g tiles) = Inr rep"
    by (auto simp: mosaic_replacementTile_def Let_def split: if_splits sum.splits)
  from findBestTile_Inr_valid[OF f] have "rep \<in> set tiles" "path rep \<notin> corruptedTiles ?g"
    by (simp_all add: validTiles_def)
  then show ?thesis using t by simp
qed

lemma mosaic_bestTile_succeeds:
  assumes "tiles \<noteq> []" "\<forall>tile\<in>set tiles. path tile \<notin> corruptedTiles this"
  shows "\<exists>p u. mosaic_bestTile this tiles inputData W allowReuse usedTiles x y = Inr (p, u)"
proof -
  let ?av = "availableTilesFor allowReuse usedTiles tiles"
  have "validTiles this ?av = ?av"
    using assms(2) availableTilesFor_subset[of allowReuse usedTiles tiles]
    by (intro validTiles_all) auto
  moreover have "?av \<noteq> []" using assms(1) by (rule availableTilesFor_not_Nil)
  ultimately obtain best where "findBestTile this (targetColorAt inputData W x y) ?av = Inr best"
    by (cases ?av) (auto simp: findBestTile_def)
  then show ?thesis by (simp add: mosaic_bestTile_def)
qed

lemma mosaic_row_succeeds:
  assumes "tiles \<noteq> []" "\<forall>tile\<in>set tiles. path tile \<notin> corruptedTiles this"
  shows "\<exists>row' u. mosaic_row this tiles inputData W allowReuse y usedTiles row xs = Inr (row', u)"
proof (induction xs arbitrary: usedTiles row)
  case Nil
  then show ?case by simp
next
  case (Cons x xs)
  from mosaic_bestTile_succeeds[OF assms, of inputData W allowReuse usedTiles x y]
  obtain p u where "mosaic_bestTile this tiles inputData W allowReuse usedTiles x y = Inr (p, u)"
    by blast
  then show ?case using Cons.IH[of u "row @ [p]"] by simp
qed

lemma mosaic_rows_succeeds:
  assumes "tiles \<noteq> []" "\<forall>tile\<in>set tiles. path tile \<notin> corruptedTiles this"
  shows "\<exists>res u. mosaic_rows this tiles inputData W allowReuse usedTiles tileImages ys = Inr (res, u)"
proof (induction ys arbitrary: usedTiles tileImages)
  case Nil
  then show ?case by simp
next
  case (Cons y ys)
  from mosaic_row_succeeds[OF assms, of inputData W allowReuse y usedTiles "[]" "[0..<W]"]
  obtain row u where "mosaic_row this tiles inputData W allowReuse y usedTiles [] [0..<W] = Inr (row, u)"
    by blast
  then show ?case using Cons.IH[of u "tileImages @ [row]"] by simp
qed

lemma mosaic_tileImages_succeeds:
  assumes "tiles \<noteq> []" "\<forall>tile\<in>set tiles. path tile \<notin> corruptedTiles this"
  shows "\<exists>tileImages. mosaic_tileImages this tiles inputData W H allowReuse = Inr tileImages"
  using mosaic_rows_succeeds[OF assms, of inputData W allowReuse "{}" "[]" "[0..<H]"]
  by (auto simp: mosaic_tileImages_def)

lemma findBestTile_no_corrupted:
  "\<forall>tile\<in>set tiles. path tile \<notin> corruptedTiles this \<Longrightarrow>
     findBestTile this targetColor tiles = findBestTile newMosaicGenerator targetColor tiles"
  by (simp add: findBestTile_def validTiles_all) (simp add: validTiles_def newMosaicGenerator_def)

lemma mosaic_bestTile_no_corrupted:
  assumes "\<forall>tile\<in>set tiles. path tile \<notin> corruptedTiles this"
  shows "mosaic_bestTile this tiles inputData W allowReuse usedTiles x y
       = mosaic_bestTile newMosaicGenerator tiles inputData W allowReuse usedTiles x y"
proof -
  have "\<forall>tile\<in>set (availableTilesFor allowReuse usedTiles tiles). path tile \<notin> corruptedTiles this"
    using assms availableTilesFor_subset[of allowReuse usedTiles tiles] by auto
  from findBestTile_no_corrupted[OF this, of "targetColorAt inputData W x y"]
  show ?thesis by (simp add: mosaic_bestTile_def)
qed

lemma mosaic_row_no_corrupted:
  assumes "\<forall>tile\<in>set tiles. path tile \<notin> corruptedTiles this"
  shows "mosaic_row this tiles inputData W allowReuse y usedTiles row xs
       = mosaic_row newMosaicGenerator tiles inputData W allowReuse y usedTiles row xs"
  by (induction xs arbitrary: usedTiles row)
     (simp_all add: mosaic_bestTile_no_corrupted[OF assms] split: sum.splits)

lemma mosaic_rows_no_corrupted:
  assumes "\<forall>tile\<in>set tiles. path tile \<notin> corruptedTiles this"
  shows "mosaic_rows this tiles inputData W allowReuse usedTiles tileImages ys
       = mosaic_rows newMosaicGenerator tiles inputData W allowReuse usedTiles tileImages ys"
  by (induction ys arbitrary: usedTiles tileImages)
     (simp_all add: mosaic_row_no_corrupted[OF assms] split: sum.splits)

lemma mosaic_tileImages_no_corrupted:
  assumes "\<forall>tile\<in>set tiles. path tile \<notin> corruptedTiles this"
  shows "mosaic_tileImages this tiles inputData W H allowReuse
       = mosaic_tileImages newMosaicGenerator tiles inputData W H allowReuse"
  by (simp add: mosaic_tileImages_def mosaic_rows_no_corrupted[OF assms])

text \<open>
  Claim C2. A tile that \<^verbatim>\<open>findBestTile\<close> returns is one of its candidates and its path
  is not in the set of corrupted tiles; every path of every row of a tile assignment that
  \<^verbatim>\<open>generateMosaic\<close> builds is a path of the corpus that is not corrupted when it is
  chosen (the assignment loops do not change the set); and the replacement that the
  compositor chooses after a failed decode is a tile of the corpus whose path is not in
  the set of corrupted tiles, to which the failed path has just been added.
\<close>

theorem chosen_tile_never_corrupted:
  fixes candidates :: "'b TileRecord_scheme list" and corpus :: "'c TileRecord_scheme list"
  shows "(findBestTile this targetColor candidates = Inr bestTile
            \<longrightarrow> path bestTile \<notin> corruptedTiles this \<and> bestTile \<in> set candidates)
   \<and> (mosaic_tileImages this tiles inputData finalMosaicWidth finalMosaicHeight allowReuse
         = Inr tileImages
       \<longrightarrow> (\<forall>row\<in>set tileImages. \<forall>p\<in>set row.
              p \<notin> corruptedTiles this \<and> p \<in> path ` set tiles))
   \<and> (mosaic_replacementTile this corpus inputData finalMosaicWidth x y (Some tilePath)
         = Inr (replacementTile, this1)
       \<longrightarrow> corruptedTiles this1 = insert tilePath (corruptedTiles this)
          \<and> path replacementTile \<notin> corruptedTiles this1
          \<and> replacementTile \<in> set corpus)"
proof (intro conjI impI)
  assume "findBestTile this targetColor candidates = Inr bestTile"
  from findBestTile_Inr_valid[OF this]
  show "path bestTile \<notin> corruptedTiles this" and "bestTile \<in> set candidates"
    by (simp_all add: validTiles_def)
next
  assume "mosaic_tileImages this tiles inputData finalMosaicWidth finalMosaicHeight allowReuse
            = Inr tileImages"
  from mosaic_tileImages_usable[OF this]
  show "\<forall>row\<in>set tileImages. \<forall>p\<in>set row. p \<notin> corruptedTiles this \<and> p \<in> path ` set tiles"
    by (simp add: usablePath_def)
next
  assume "mosaic_replacementTile this corpus inputData finalMosaicWidth x y (Some tilePath)
            = Inr (replacementTile, this1)"
  from mosaic_replacementTile_usable[OF this]
  have u: "corruptedTiles this1 = insert tilePath (corruptedTiles this)
         \<and> path replacementTile \<notin> corruptedTiles this1 \<and> replacementTile \<in> set corpus" .
  show "corruptedTiles this1 = insert tilePath (corruptedTiles this)" using u by blast
  show "path replacementTile \<notin> corruptedTiles this1" using u by blast
  show "replacementTile \<in> set corpus" using u by blast
qed

theorem chosen_tile_never_corrupted_witness:
  "findBestTile (newMosaicGenerator\<lparr>corruptedTiles := {''bad.png''}\<rparr>)
       \<lparr>r = Num 0, g = Num 0, b = Num 0\<rparr>
       [\<lparr>r = Num 0, g = Num 0, b = Num 0, path = ''bad.png'', ref = 0\<rparr>,
        \<lparr>r = Num 255, g = Num 255, b = Num 255, path = ''good.png'', ref = 1\<rparr>]
     = Inr \<lparr>r = Num 255, g = Num 255, b = Num 255, path = ''good.png'', ref = 1\<rparr>
   \<and> mosaic_tileImages (newMosaicGenerator\<lparr>corruptedTiles := {''bad.png''}\<rparr>)
       [\<lparr>r = Num 0, g = Num 0, b = Num 0, path = ''bad.png'', ref = 0\<rparr>,
        \<lparr>r = Num 255, g = Num 255, b = Num 255, path = ''good.png'', ref = 1\<rparr>]
       [0, 0, 0] 1 1 True
     = Inr [[''good.png'']]
   \<and> ''good.png'' \<notin> corruptedTiles (newMosaicGenerator\<lparr>corruptedTiles := {''bad.png''}\<rparr>)
   \<and> mosaic_replacementTile newMosaicGenerator
       [\<lparr>r = Num 0, g = Num 0, b = Num 0, path = ''bad.png''\<rparr>,
        \<lparr>r = Num 255, g = Num 255, b = Num 255, path = ''good.png''\<rparr>]
       [0, 0, 0] 1 0 0 (Some ''bad.png'')
     = Inr (\<lparr>r = Num 255, g = Num 255, b = Num 255, path = ''good.png''\<rparr>,
            newMosaicGenerator\<lparr>corruptedTiles := {''bad.png''}\<rparr>)
   \<and> ''good.png'' \<notin> insert ''bad.png'' (corruptedTiles newMosaicGenerator)"
proof -
  have c: ?thesis
    by (simp add: upt_conv_Cons findBestTile_def validTiles_def newMosaicGenerator_def
        colorDistanceSq_def mosaic_tileImages_def mosaic_bestTile_def availableTilesFor_def
        targetColorAt_def bufferAt_def mosaic_replacementTile_def)
  show ?thesis
    using chosen_tile_never_corrupted
      [of "newMosaicGenerator\<lparr>corruptedTiles := {''bad.png''}\<rparr>"
          "\<lparr>r = Num 0, g = Num 0, b = Num 0\<rparr>"
          "[\<lparr>r = Num 0, g = Num 0, b = Num 0, path = ''bad.png'', ref = 0\<rparr>,
            \<lparr>r = Num 255, g = Num 255, b = Num 255, path = ''good.png'', ref = 1\<rparr>]"
          "\<lparr>r = Num 255, g = Num 255, b = Num 255, path = ''good.png'', ref = 1\<rparr>"
          "[\<lparr>r = Num 0, g = Num 0, b = Num 0, path = ''bad.png'', ref = 0\<rparr>,
            \<lparr>r = Num 255, g = Num 255, b = Num 255, path = ''good.png'', ref = 1\<rparr>]"
          "[0, 0, 0]" 1 1 True "[[''good.png'']]"
          "[\<lparr>r = Num 0, g = Num 0, b = Num 0, path = ''bad.png''\<rparr>,
            \<lparr>r = Num 255, g = Num 255, b = Num 255, path = ''good.png''\<rparr>]"]
    by - (rule c)
qed

text \<open>
  Without reuse, a corpus that is not empty and holds no corrupted tile gives a grid of
  \<open>finalMosaicHeight\<close> rows of \<open>finalMosaicWidth\<close> paths for every grid size, also
  for more cells than tiles; and at a cell where every tile of the corpus is already
  used, the candidates are the whole corpus.
\<close>

lemma no_reuse_falls_back_to_corpus:
  assumes "tiles \<noteq> []" and "\<forall>tile\<in>set tiles. path tile \<notin> corruptedTiles this"
  shows "(\<exists>tileImages.
            mosaic_tileImages this tiles inputData finalMosaicWidth finalMosaicHeight False
              = Inr tileImages
          \<and> length tileImages = finalMosaicHeight
          \<and> (\<forall>row\<in>set tileImages. length row = finalMosaicWidth))
       \<and> (\<forall>usedTiles. ref ` set tiles \<subseteq> usedTiles
            \<longrightarrow> availableTilesFor False usedTiles tiles = tiles)"
proof (intro conjI allI impI)
  from mosaic_tileImages_succeeds[OF assms, of inputData finalMosaicWidth finalMosaicHeight False]
  obtain tileImages where
    t: "mosaic_tileImages this tiles inputData finalMosaicWidth finalMosaicHeight False
          = Inr tileImages"
    by blast
  from mosaic_tileImages_usable[OF t] t
  show "\<exists>tileImages.
          mosaic_tileImages this tiles inputData finalMosaicWidth finalMosaicHeight False
            = Inr tileImages
        \<and> length tileImages = finalMosaicHeight
        \<and> (\<forall>row\<in>set tileImages. length row = finalMosaicWidth)"
    by simp
next
  fix usedTiles
  assume "ref ` set tiles \<subseteq> usedTiles"
  then have "filter (\<lambda>tile. ref tile \<notin> usedTiles) tiles = []"
    by (auto simp: filter_empty_conv)
  then show "availableTilesFor False usedTiles tiles = tiles"
    by (simp add: availableTilesFor_def)
qed

text \<open>
  Claim C4. The run is to complete with \<^verbatim>\<open>allowReuse = false\<close> and more cells than
  usable tiles. It does for a corpus without a corrupted tile: two tiles and three black
  cells give \<^verbatim>\<open>a.png\<close>, \<^verbatim>\<open>b.png\<close> and, by the fallback, \<^verbatim>\<open>a.png\<close> again. It
  does not when the corpus also holds a corrupted tile. The corpus
  \<^verbatim>\<open>good.png\<close>, \<^verbatim>\<open>bad.png\<close> with \<^verbatim>\<open>bad.png\<close> in the set of corrupted tiles has
  one usable tile; on a grid of two cells the first cell takes \<^verbatim>\<open>good.png\<close>, and at
  the second the tiles not yet used are \<^verbatim>\<open>bad.png\<close> alone: the list is not empty, so
  the corpus is not taken instead, \<^verbatim>\<open>findBestTile\<close> removes the corrupted tile and
  throws. With reuse allowed the same grid is filled.
\<close>

theorem no_reuse_fails_with_corrupted_leftover:
  "mosaic_tileImages newMosaicGenerator
       [\<lparr>r = Num 0, g = Num 0, b = Num 0, path = ''a.png'', ref = 0\<rparr>,
        \<lparr>r = Num 255, g = Num 255, b = Num 255, path = ''b.png'', ref = 1\<rparr>]
       [0, 0, 0, 0, 0, 0, 0, 0, 0] 3 1 False
     = Inr [[''a.png'', ''b.png'', ''a.png'']]
   \<and> validTiles (newMosaicGenerator\<lparr>corruptedTiles := {''bad.png''}\<rparr>)
       [\<lparr>r = Num 0, g = Num 0, b = Num 0, path = ''good.png'', ref = 0\<rparr>,
        \<lparr>r = Num 255, g = Num 255, b = Num 255, path = ''bad.png'', ref = 1\<rparr>]
     = [\<lparr>r = Num 0, g = Num 0, b = Num 0, path = ''good.png'', ref = 0\<rparr>]
   \<and> mosaic_tileImages (newMosaicGenerator\<lparr>corruptedTiles := {''bad.png''}\<rparr>)
       [\<lparr>r = Num 0, g = Num 0, b = Num 0, path = ''good.png'', ref = 0\<rparr>,
        \<lparr>r = Num 255, g = Num 255, b = Num 255, path = ''bad.png'', ref = 1\<rparr>]
       [0, 0, 0, 0, 0, 0] 2 1 False
     = Inl (Error ''No valid tiles available - all tiles are corrupted'')
   \<and> mosaic_tileImages (newMosaicGenerator\<lparr>corruptedTiles := {''bad.png''}\<rparr>)
       [\<lparr>r = Num 0, g = Num 0, b = Num 0, path = ''good.png'', ref = 0\<rparr>,
        \<lparr>r = Num 255, g = Num 255, b = Num 255, path = ''bad.png'', ref = 1\<rparr>]
       [0, 0, 0, 0, 0, 0] 2 1 True
     = Inr [[''good.png'', ''good.png'']]"
  by code_simp

text \<open>
  Claim C10. Two runs on the same corpus and the same source pixels give the same result,
  whatever else the two generators hold (tile cache, last tile pattern, sets of corrupted
  tiles), as long as no tile of the corpus is corrupted in either: \<^verbatim>\<open>findBestTile\<close>
  returns the same tile and the assignment loops return the same grid. The result is a
  function of the target colours, the corpus and the reuse flag alone.
\<close>

theorem matching_is_deterministic:
  assumes "\<forall>tile\<in>set tiles. path tile \<notin> corruptedTiles run1 \<and> path tile \<notin> corruptedTiles run2"
  shows "findBestTile run1 targetColor tiles = findBestTile run2 targetColor tiles
       \<and> mosaic_tileImages run1 tiles inputData finalMosaicWidth finalMosaicHeight allowReuse
         = mosaic_tileImages run2 tiles inputData finalMosaicWidth finalMosaicHeight allowReuse"
proof -
  have a: "\<forall>tile\<in>set tiles. path tile \<notin> corruptedTiles run1"
    and b: "\<forall>tile\<in>set tiles. path tile \<notin> corruptedTiles run2"
    using assms by simp_all
  show ?thesis
    by (simp add: findBestTile_no_corrupted[OF a] findBestTile_no_corrupted[OF b]
        mosaic_tileImages_no_corrupted[OF a] mosaic_tileImages_no_corrupted[OF b])
qed

theorem matching_is_deterministic_witness:
  "''a.png'' \<notin> corruptedTiles newMosaicGenerator
   \<and> ''b.png'' \<notin> corruptedTiles newMosaicGenerator
   \<and> ''a.png'' \<notin> corruptedTiles
         (newMosaicGenerator\<lparr>corruptedTiles := {''other.png''}, lastTilePattern := [[''a.png'']]\<rparr>)
   \<and> ''b.png'' \<notin> corruptedTiles
         (newMosaicGenerator\<lparr>corruptedTiles := {''other.png''}, lastTilePattern := [[''a.png'']]\<rparr>)
   \<and> findBestTile newMosaicGenerator \<lparr>r = Num 200, g = Num 200, b = Num 200\<rparr>
       [\<lparr>r = Num 0, g = Num 0, b = Num 0, path = ''a.png'', ref = 0\<rparr>,
        \<lparr>r = Num 255, g = Num 255, b = Num 255, path = ''b.png'', ref = 1\<rparr>]
     = findBestTile
         (newMosaicGenerator\<lparr>corruptedTiles := {''other.png''}, lastTilePattern := [[''a.png'']]\<rparr>)
         \<lparr>r = Num 200, g = Num 200, b = Num 200\<rparr>
       [\<lparr>r = Num 0, g = Num 0, b = Num 0, path = ''a.png'', ref = 0\<rparr>,
        \<lparr>r = Num 255, g = Num 255, b = Num 255, path = ''b.png'', ref = 1\<rparr>]
   \<and> mosaic_tileImages newMosaicGenerator
       [\<lparr>r = Num 0, g = Num 0, b = Num 0, path = ''a.png'', ref = 0\<rparr>,
        \<lparr>r = Num 255, g = Num 255, b = Num 255, path = ''b.png'', ref = 1\<rparr>]
       [200, 200, 200, 10, 10, 10] 2 1 True
     = mosaic_tileImages
         (newMosaicGenerator\<lparr>corruptedTiles := {''other.png''}, lastTilePattern := [[''a.png'']]\<rparr>)
       [\<lparr>r = Num 0, g = Num 0, b = Num 0, path = ''a.png'', ref = 0\<rparr>,
        \<lparr>r = Num 255, g = Num 255, b = Num 255, path = ''b.png'', ref = 1\<rparr>]
       [200, 200, 200, 10, 10, 10] 2 1 True
   \<and> mosaic_tileImages newMosaicGenerator
       [\<lparr>r = Num 0, g = Num 0, b = Num 0, path = ''a.png'', ref = 0\<rparr>,
        \<lparr>r = Num 255, g = Num 255, b = Num 255, path = ''b.png'', ref = 1\<rparr>]
       [200, 200, 200, 10, 10, 10] 2 1 True
     = Inr [[''b.png'', ''a.png'']]"
proof -
  have c: ?thesis
    by code_simp
  show ?thesis
    using matching_is_deterministic
      [of "[\<lparr>r = Num 0, g = Num 0, b = Num 0, path = ''a.png'', ref = 0\<rparr>,
            \<lparr>r = Num 255, g = Num 255, b = Num 255, path = ''b.png'', ref = 1\<rparr>]"
          newMosaicGenerator
          "newMosaicGenerator\<lparr>corruptedTiles := {''other.png''}, lastTilePattern := [[''a.png'']]\<rparr>"
          "\<lparr>r = Num 200, g = Num 200, b = Num 200\<rparr>"
          "[200, 200, 200, 10, 10, 10]" 2 1 True]
    by - (rule c)
qed

section \<open>Properties of the Frame Compositor\<close>

lemma validTiles_idem: "validTiles this (validTiles this tiles) = validTiles this tiles"
  by (simp add: validTiles_def)

lemma findBestTile_validTiles:
  "findBestTile this targetColor (validTiles this tiles) = findBestTile this targetColor tiles"
  by (simp add: findBestTile_def validTiles_idem)

text \<open>
  Claim C3, as the code has it. In the compositor of the base mosaic, when the tile of a
  cell cannot be decoded, its path is added to the set of corrupted tiles, the target
  colour of the cell is read again from the source pixels, \<^verbatim>\<open>findBestTile\<close> chooses
  the replacement among the tiles of the corpus that are not corrupted, and the buffer
  of the replacement stands for the cell; with no tile left the composition fails with
  an error, and an error of a cell is the error of its row and of the whole composition.
  When the decoding of the replacement fails, that error is the result as well. In the
  compositor of a zoom step, a tile that cannot be decoded is replaced by a grey tile
  (every byte 128): no tile is marked as corrupted, no replacement is looked for, and
  this never fails. A tile that is decoded is used as it is in both.
\<close>

theorem compositor_failure_handling:
  fixes sharp :: "'w codec" and tiles :: "'a TileRecord_scheme list"
  shows "(sharp w (Some tilePath) tileSize = (Inr tileBuffer, w1)
       \<longrightarrow> mosaic_tileBuffer sharp this w tiles inputData finalMosaicWidth tileSize x y (Some tilePath)
             = Inr (tileBuffer, this, w1)
         \<and> zoomed_tileBuffer sharp w tileSize (Some tilePath) = (tileBuffer, w1))
   \<and> (sharp w (Some tilePath) tileSize = (Inl err, w1)
          \<and> validTiles (this\<lparr>corruptedTiles := insert tilePath (corruptedTiles this)\<rparr>) tiles = []
       \<longrightarrow> mosaic_tileBuffer sharp this w tiles inputData finalMosaicWidth tileSize x y (Some tilePath)
             = Inl (Error ''No valid tiles remaining after filtering corrupted tiles''))
   \<and> (sharp w (Some tilePath) tileSize = (Inl err, w1)
          \<and> validTiles (this\<lparr>corruptedTiles := insert tilePath (corruptedTiles this)\<rparr>) tiles \<noteq> []
       \<longrightarrow> (\<exists>replacementTile.
              findBestTile (this\<lparr>corruptedTiles := insert tilePath (corruptedTiles this)\<rparr>)
                (targetColorAt inputData finalMosaicWidth x y) tiles = Inr replacementTile
            \<and> replacementTile \<in> set tiles
            \<and> path replacementTile \<notin> insert tilePath (corruptedTiles this)
            \<and> mosaic_tileBuffer sharp this w tiles inputData finalMosaicWidth tileSize x y (Some tilePath)
                = (case sharp w1 (Some (path replacementTile)) tileSize of
                     (Inr replacementBuffer, w2) \<Rightarrow>
                       Inr (replacementBuffer,
                            this\<lparr>corruptedTiles := insert tilePath (corruptedTiles this)\<rparr>, w2)
                   | (Inl e, w2) \<Rightarrow> Inl e)))
   \<and> (sharp w (Some tilePath) tileSize = (Inl err, w1)
       \<longrightarrow> zoomed_tileBuffer sharp w tileSize (Some tilePath)
             = (replicate (nat (tileSize * tileSize * 3)) 128, w1))
   \<and> (patternAt tileImages y x = Inr (Some tilePath)
          \<and> mosaic_tileBuffer sharp this w tiles inputData finalMosaicWidth tileSize x y (Some tilePath)
              = Inl e
       \<longrightarrow> mosaic_tileBuffers sharp tiles inputData finalMosaicWidth tileSize tileImages y
             this w tileBuffers (x # xs) = Inl e)
   \<and> (mosaic_tileBuffers sharp tiles inputData finalMosaicWidth tileSize tileImages y
           this w [] [0..<finalMosaicWidth] = Inl e
       \<longrightarrow> mosaic_rowBuffers sharp tiles inputData finalMosaicWidth tileSize tileImages
             this w rowBuffers (y # ys) = Inl e)"
proof (intro conjI impI)
  assume "sharp w (Some tilePath) tileSize = (Inr tileBuffer, w1)"
  then show "mosaic_tileBuffer sharp this w tiles inputData finalMosaicWidth tileSize x y (Some tilePath)
             = Inr (tileBuffer, this, w1)"
    and "zoomed_tileBuffer sharp w tileSize (Some tilePath) = (tileBuffer, w1)"
    by (simp_all add: mosaic_tileBuffer_def zoomed_tileBuffer_def)
next
  assume "sharp w (Some tilePath) tileSize = (Inl err, w1)
          \<and> validTiles (this\<lparr>corruptedTiles := insert tilePath (corruptedTiles this)\<rparr>) tiles = []"
  then show "mosaic_tileBuffer sharp this w tiles inputData finalMosaicWidth tileSize x y (Some tilePath)
             = Inl (Error ''No valid tiles remaining after filtering corrupted tiles'')"
    by (simp add: mosaic_tileBuffer_def mosaic_replacementTile_def)
next
  let ?this1 = "this\<lparr>corruptedTiles := insert tilePath (corruptedTiles this)\<rparr>"
  assume a: "sharp w (Some tilePath) tileSize = (Inl err, w1) \<and> validTiles ?this1 tiles \<noteq> []"
  then obtain first rest where v: "validTiles ?this1 tiles = first # rest"
    by (cases "validTiles ?this1 tiles") auto
  then obtain rep where
    f: "findBestTile ?this1 (targetColorAt inputData finalMosaicWidth x y) tiles = Inr rep"
    by (simp add: findBestTile_def)
  from findBestTile_Inr_valid[OF f] have m: "rep \<in> set tiles"
    "path rep \<notin> insert tilePath (corruptedTiles this)"
    by (simp_all add: validTiles_def)
  have "mosaic_replacementTile this tiles inputData finalMosaicWidth x y (Some tilePath)
          = Inr (rep, ?this1)"
    using a f by (simp add: mosaic_replacementTile_def findBestTile_validTiles Let_def)
  then have "mosaic_tileBuffer sharp this w tiles inputData finalMosaicWidth tileSize x y (Some tilePath)
                = (case sharp w1 (Some (path rep)) tileSize of
                     (Inr replacementBuffer, w2) \<Rightarrow> Inr (replacementBuffer, ?this1, w2)
                   | (Inl e, w2) \<Rightarrow> Inl e)"
    using a by (simp add: mosaic_tileBuffer_def)
  with f m show "\<exists>replacementTile.
              findBestTile ?this1 (targetColorAt inputData finalMosaicWidth x y) tiles = Inr replacementTile
            \<and> replacementTile \<in> set tiles
            \<and> path replacementTile \<notin> insert tilePath (corruptedTiles this)
            \<and> mosaic_tileBuffer sharp this w tiles inputData finalMosaicWidth tileSize x y (Some tilePath)
                = (case sharp w1 (Some (path replacementTile)) tileSize of
                     (Inr replacementBuffer, w2) \<Rightarrow> Inr (replacementBuffer, ?this1, w2)
                   | (Inl e, w2) \<Rightarrow> Inl e)"
    by blast
next
  assume "sharp w (Some tilePath) tileSize = (Inl err, w1)"
  then show "zoomed_tileBuffer sharp w tileSize (Some tilePath)
             = (replicate (nat (tileSize * tileSize * 3)) 128, w1)"
    by (simp add: zoomed_tileBuffer_def)
next
  assume "patternAt tileImages y x = Inr (Some tilePath)
          \<and> mosaic_tileBuffer sharp this w tiles inputData finalMosaicWidth tileSize x y (Some tilePath)
              = Inl e"
  then show "mosaic_tileBuffers sharp tiles inputData finalMosaicWidth tileSize tileImages y
             this w tileBuffers (x # xs) = Inl e"
    by simp
next
  assume "mosaic_tileBuffers sharp tiles inputData finalMosaicWidth tileSize tileImages y
           this w [] [0..<finalMosaicWidth] = Inl e"
  then show "mosaic_rowBuffers sharp tiles inputData finalMosaicWidth tileSize tileImages
             this w rowBuffers (y # ys) = Inl e"
    by simp
qed

theorem compositor_failure_handling_witness:
  "validTiles
       (newMosaicGenerator\<lparr>corruptedTiles := insert ''bad.png'' (corruptedTiles newMosaicGenerator)\<rparr>)
       [\<lparr>r = Num 0, g = Num 0, b = Num 0, path = ''bad.png''\<rparr>,
        \<lparr>r = Num 255, g = Num 255, b = Num 255, path = ''good.png''\<rparr>] \<noteq> []
   \<and> mosaic_tileBuffer
       (\<lambda>w p n. (if p = Some ''bad.png'' then Inl (Error ''Input file is missing'')
                  else Inr [10, 20, 30], w))
       newMosaicGenerator ()
       [\<lparr>r = Num 0, g = Num 0, b = Num 0, path = ''bad.png''\<rparr>,
        \<lparr>r = Num 255, g = Num 255, b = Num 255, path = ''good.png''\<rparr>]
       [0, 0, 0] 1 1 0 0 (Some ''bad.png'')
     = Inr ([10, 20, 30], newMosaicGenerator\<lparr>corruptedTiles := {''bad.png''}\<rparr>, ())
   \<and> mosaic_composite
       (\<lambda>w p n. (if p = Some ''bad.png'' then Inl (Error ''Input file is missing'')
                  else Inr [10, 20, 30], w))
       newMosaicGenerator ()
       [\<lparr>r = Num 0, g = Num 0, b = Num 0, path = ''bad.png''\<rparr>,
        \<lparr>r = Num 255, g = Num 255, b = Num 255, path = ''good.png''\<rparr>]
       [0, 0, 0] 1 1 1 [[''bad.png'']]
     = Inr ([[[10, 20, 30]]], newMosaicGenerator\<lparr>corruptedTiles := {''bad.png''}\<rparr>, ())
   \<and> mosaic_tileBuffer
       (\<lambda>w p n. (if p = Some ''bad.png'' then Inl (Error ''Input file is missing'')
                  else Inr [10, 20, 30], w))
       newMosaicGenerator ()
       [\<lparr>r = Num 0, g = Num 0, b = Num 0, path = ''bad.png''\<rparr>]
       [0, 0, 0] 1 1 0 0 (Some ''bad.png'')
     = Inl (Error ''No valid tiles remaining after filtering corrupted tiles'')
   \<and> zoomed_tileBuffer
       (\<lambda>w p n. (if p = Some ''bad.png'' then Inl (Error ''Input file is missing'')
                  else Inr [10, 20, 30], w))
       () 1 (Some ''bad.png'')
     = ([128, 128, 128], ())
   \<and> zoomed_tileBuffer
       (\<lambda>w p n. (if p = Some ''bad.png'' then Inl (Error ''Input file is missing'')
                  else Inr [10, 20, 30], w))
       () 1 (Some ''good.png'')
     = ([10, 20, 30], ())"
proof -
  have c: ?thesis
    by (simp add: mosaic_composite_def mosaic_tileBuffer_def mosaic_replacementTile_def
        zoomed_tileBuffer_def validTiles_def findBestTile_def newMosaicGenerator_def
        colorDistanceSq_def targetColorAt_def bufferAt_def patternAt_def numeral_3_eq_3)
  show ?thesis
    using compositor_failure_handling
      [where sharp = "\<lambda>w p n. (if p = Some ''bad.png'' then Inl (Error ''Input file is missing'')
                                 else Inr [10, 20, 30], w)"
         and w = "()" and ?w1.0 = "()" and tilePath = "''bad.png''" and tileSize = 1
         and err = "Error ''Input file is missing''" and this = newMosaicGenerator
         and tiles = "[\<lparr>r = Num 0, g = Num 0, b = Num 0, path = ''bad.png''\<rparr>,
                       \<lparr>r = Num 255, g = Num 255, b = Num 255, path = ''good.png''\<rparr>]"
         and inputData = "[0, 0, 0]" and finalMosaicWidth = 1 and x = 0 and y = 0]
    by - (rule c)
qed

text \<open>
  Claim C3 as it is written fails for the compositor of a zoom step: with a codec that
  fails on every file, the composition of the pattern of the one tile \<^verbatim>\<open>a.png\<close> at
  tile size 1 returns a grey tile and no error, where the compositor of the base mosaic
  fails for want of a replacement.
\<close>

theorem zoomed_composite_gray_fallback:
  "zoomed_composite (\<lambda>w p n. (Inl (Error ''Input file is missing''), w)) ()
       [[''a.png'']] 1 1 1
     = Inr ([[[128, 128, 128]]], ())
   \<and> mosaic_composite (\<lambda>w p n. (Inl (Error ''Input file is missing''), w))
       newMosaicGenerator ()
       [\<lparr>r = Num 0, g = Num 0, b = Num 0, path = ''a.png''\<rparr>] [0, 0, 0] 1 1 1
       [[''a.png'']]
     = Inl (Error ''No valid tiles remaining after filtering corrupted tiles'')"
  by (simp add: zoomed_composite_def zoomed_tileBuffer_def patternAt_def mosaic_composite_def
      mosaic_tileBuffer_def mosaic_replacementTile_def validTiles_def newMosaicGenerator_def
      numeral_3_eq_3)

text \<open>
  A pattern whose row is shorter than the grid is wide: the cell past the end of the row
  goes to the codec as \<^verbatim>\<open>undefined\<close>, and when the codec throws the compositor of a
  zoom step paints it grey; a pattern with fewer rows than the grid is high fails the
  composition.
\<close>

lemma zoomed_composite_short_row:
  "zoomed_composite
       (\<lambda>w p n. (case p of None \<Rightarrow> Inl (Error ''Invalid input'') | Some f \<Rightarrow> Inr [10, 20, 30], w))
       () [[''a.png'']] 2 1 1
     = Inr ([[[10, 20, 30], [128, 128, 128]]], ())"
  "zoomed_composite sharp w [] 1 1 1 = Inl (Error ''Cannot read properties of undefined'')"
  by (simp_all add: zoomed_composite_def zoomed_tileBuffer_def patternAt_def upt_conv_Cons
      numeral_3_eq_3 del: upt_Suc)

section \<open>Properties of the double-precision numbers\<close>

text \<open>Evaluation of the exponent search on numerals.\<close>

lemma exponentUp_numeral:
  "exponentUp (numeral k) x = (if 2 \<le> x then exponentUp (pred_numeral k) (x / 2) + 1 else 0)"
  by (simp add: numeral_eq_Suc)

lemma exponentDown_numeral:
  "exponentDown (numeral k) x = (if x < 1 then exponentDown (pred_numeral k) (2 * x) - 1 else 0)"
  by (simp add: numeral_eq_Suc)

lemmas double_eval =
  toDouble_def exponentOf_def exponentUp_numeral exponentDown_numeral roundHalfEven_def Let_def

text \<open>The exponent that the search finds is the exponent of the binade.\<close>

lemma exponentUp_bounds:
  "1 \<le> x \<Longrightarrow> x < 2 ^ Suc n
   \<Longrightarrow> 2 powi (exponentUp n x) \<le> x \<and> x < 2 powi (exponentUp n x + 1) \<and> 0 \<le> exponentUp n x"
proof (induction n arbitrary: x)
  case 0
  then show ?case by simp
next
  case (Suc n)
  show ?case
  proof (cases "2 \<le> x")
    case True
    have a: "1 \<le> x / 2" "x / 2 < 2 ^ Suc n" using True Suc.prems by simp_all
    from Suc.IH[OF a] have
      i: "2 powi (exponentUp n (x / 2)) \<le> x / 2" "x / 2 < 2 powi (exponentUp n (x / 2) + 1)"
         "0 \<le> exponentUp n (x / 2)"
      by auto
    have "2 powi (exponentUp n (x / 2) + 1) = 2 powi (exponentUp n (x / 2)) * (2::real)"
      by (rule power_int_add_1) simp
    moreover have "2 powi (exponentUp n (x / 2) + 1 + 1)
        = 2 powi (exponentUp n (x / 2) + 1) * (2::real)"
      by (rule power_int_add_1) simp
    ultimately show ?thesis using True i by simp
  next
    case False
    then show ?thesis using Suc.prems by simp
  qed
qed

lemma exponentUp_nonneg: "0 \<le> exponentUp n x"
  by (induction n arbitrary: x) auto

lemma exponentDown_one: "1 \<le> x \<Longrightarrow> exponentDown n x = 0"
  by (cases n) simp_all

lemma exponentDown_bounds:
  "0 < x \<Longrightarrow> x < 1 \<Longrightarrow> 2 powi (- int n) \<le> x
   \<Longrightarrow> 2 powi (exponentDown n x) \<le> x \<and> x < 2 powi (exponentDown n x + 1)"
proof (induction n arbitrary: x)
  case 0
  then show ?case by simp
next
  case (Suc n)
  have s: "2 powi (- int n) = 2 powi (- int (Suc n)) * (2::real)"
    using power_int_add_1[of "2::real" "- int (Suc n)"] by simp
  show ?case
  proof (cases "2 * x < 1")
    case True
    have a: "0 < 2 * x" "2 powi (- int n) \<le> 2 * x" using Suc.prems s by simp_all
    from Suc.IH[OF a(1) True a(2)] have
      i: "2 powi (exponentDown n (2 * x)) \<le> 2 * x" "2 * x < 2 powi (exponentDown n (2 * x) + 1)"
      by auto
    have "2 powi (exponentDown n (2 * x)) = 2 powi (exponentDown n (2 * x) - 1) * (2::real)"
      using power_int_add_1[of "2::real" "exponentDown n (2 * x) - 1"] by simp
    moreover have "2 powi (exponentDown n (2 * x) + 1)
        = 2 powi (exponentDown n (2 * x)) * (2::real)"
      by (rule power_int_add_1) simp
    ultimately show ?thesis using Suc.prems i by simp
  next
    case False
    then have "exponentDown n (2 * x) = 0" by (intro exponentDown_one) simp
    then show ?thesis using Suc.prems False by (simp add: power_int_minus)
  qed
qed

lemma exponentDown_small:
  "0 \<le> x \<Longrightarrow> x < 2 powi (- int n) \<Longrightarrow> exponentDown n x = - int n"
proof (induction n arbitrary: x)
  case 0
  then show ?case by simp
next
  case (Suc n)
  have s: "2 powi (- int n) = 2 powi (- int (Suc n)) * (2::real)"
    using power_int_add_1[of "2::real" "- int (Suc n)"] by simp
  have le1: "2 powi (- int (Suc n)) \<le> (1::real)"
    using power_int_increasing[of "- int (Suc n)" 0 "2::real"] by simp
  have a: "0 \<le> 2 * x" "2 * x < 2 powi (- int n)" using Suc.prems s by simp_all
  from Suc.IH[OF a] show ?case using Suc.prems le1 by simp
qed

lemma exponentOf_upper:
  assumes "\<bar>x\<bar> < 2 ^ 1024"
  shows "\<bar>x\<bar> < 2 powi (exponentOf x + 1)"
proof (cases "1 \<le> \<bar>x\<bar>")
  case True
  have "\<bar>x\<bar> < 2 ^ Suc 1024" using assms by simp
  from exponentUp_bounds[OF True this] show ?thesis using True by (simp add: exponentOf_def)
next
  case False
  show ?thesis
  proof (cases "2 powi (- int 1022) \<le> \<bar>x\<bar>")
    case t: True
    then have "0 < \<bar>x\<bar>"
      using zero_less_power_int[of "2::real" "- int 1022"] by linarith
    from exponentDown_bounds[OF this _ t] False show ?thesis by (simp add: exponentOf_def)
  next
    case f: False
    then have "exponentDown 1022 \<bar>x\<bar> = - int 1022" by (intro exponentDown_small) simp_all
    moreover have "2 powi (- int 1022) \<le> (2::real) powi (- int 1022 + 1)"
      by (intro power_int_increasing) simp_all
    ultimately show ?thesis using f False by (simp add: exponentOf_def)
  qed
qed

lemma exponentOf_lower:
  assumes "2 powi (- 1022) \<le> \<bar>x\<bar>" "\<bar>x\<bar> < 2 ^ 1024"
  shows "2 powi (exponentOf x) \<le> \<bar>x\<bar>"
proof (cases "1 \<le> \<bar>x\<bar>")
  case True
  have "\<bar>x\<bar> < 2 ^ Suc 1024" using assms by simp
  from exponentUp_bounds[OF True this] show ?thesis using True by (simp add: exponentOf_def)
next
  case False
  have t: "2 powi (- int 1022) \<le> \<bar>x\<bar>" using assms by simp
  then have "0 < \<bar>x\<bar>"
    using zero_less_power_int[of "2::real" "- int 1022"] by linarith
  from exponentDown_bounds[OF this _ t] False show ?thesis by (simp add: exponentOf_def)
qed

lemma exponentOf_subnormal:
  assumes "\<bar>x\<bar> < 2 powi (- 1022)"
  shows "exponentOf x = - 1022"
proof -
  have "\<bar>x\<bar> < 2 powi (- int 1022)" using assms by simp
  then have "exponentDown 1022 \<bar>x\<bar> = - int 1022" by (intro exponentDown_small) simp_all
  moreover have "2 powi (- 1022) \<le> (1::real)"
    using power_int_increasing[of "- 1022" 0 "2::real"] by simp
  ultimately show ?thesis using assms by (simp add: exponentOf_def)
qed

lemma roundHalfEven_int: "roundHalfEven (of_int n) = n"
  by (simp add: roundHalfEven_def)

lemma roundHalfEven_error: "\<bar>real_of_int (roundHalfEven x) - x\<bar> \<le> 1 / 2"
  unfolding roundHalfEven_def Let_def by (auto simp: abs_if) linarith+

text \<open>
  Rounding a number of the normal range to a double changes it by half a unit in the
  last place at most, a relative error of \<open>2 ^ -53\<close>.
\<close>

lemma toDouble_error:
  assumes "2 powi (- 1022) \<le> \<bar>x\<bar>" "\<bar>x\<bar> < 2 ^ 1023"
  shows "\<exists>y. toDouble x = Some y \<and> \<bar>y - x\<bar> \<le> \<bar>x\<bar> * 2 powi (- 53)"
proof -
  define E where "E = exponentOf x"
  define u where "u = (2::real) powi (E - 52)"
  define y where "y = real_of_int (roundHalfEven (x / u)) * u"
  have up: "0 < u" by (simp add: u_def)
  have x4: "\<bar>x\<bar> < 2 ^ 1024"
    using assms(2) by (rule less_trans) simp
  have lo: "2 powi E \<le> \<bar>x\<bar>" unfolding E_def by (rule exponentOf_lower[OF assms(1) x4])
  have "y - x = (real_of_int (roundHalfEven (x / u)) - x / u) * u"
    using up by (simp add: y_def field_simps)
  then have "\<bar>y - x\<bar> = \<bar>real_of_int (roundHalfEven (x / u)) - x / u\<bar> * u"
    using up by (simp add: abs_mult)
  also have "\<dots> \<le> 1 / 2 * u"
    using up roundHalfEven_error[of "x / u"] by (intro mult_right_mono) simp_all
  also have "1 / 2 * u = 2 powi E * 2 powi (- 53)"
  proof -
    have "(2::real) powi (E - 52) = 2 powi (E + (- 52))" by simp
    also have "\<dots> = 2 powi E * 2 powi (- 52)" by (rule power_int_add) simp
    finally show ?thesis by (simp add: u_def)
  qed
  also have "\<dots> \<le> \<bar>x\<bar> * 2 powi (- 53)"
    using lo by (intro mult_right_mono) simp_all
  finally have e: "\<bar>y - x\<bar> \<le> \<bar>x\<bar> * 2 powi (- 53)" .
  have "\<bar>y\<bar> \<le> \<bar>x\<bar> + \<bar>y - x\<bar>" by simp
  also have "\<dots> \<le> \<bar>x\<bar> + \<bar>x\<bar> * 2 powi (- 53)" using e by simp
  also have "\<dots> \<le> \<bar>x\<bar> + \<bar>x\<bar>" by simp
  also have "\<dots> < 2 ^ 1024" using assms(2) by simp
  finally have "\<bar>y\<bar> < 2 ^ 1024" .
  then have "toDouble x = Some y"
    by (simp add: toDouble_def Let_def y_def u_def E_def)
  with e show ?thesis by blast
qed

lemma toDouble_error_pos:
  assumes "1 / 2 ^ 54 \<le> x" "x < 2 ^ 53"
  shows "\<exists>y. toDouble x = Some y \<and> \<bar>y - x\<bar> \<le> x / 2 ^ 53"
proof -
  have xp: "0 < x" using assms(1) by (rule less_le_trans[rotated]) simp
  have "(2::real) powi (- 1022) \<le> 2 powi (- 54)" by (intro power_int_increasing) simp_all
  also have "\<dots> = 1 / 2 ^ 54" by (simp add: power_int_minus field_simps)
  finally have lo: "2 powi (- 1022) \<le> \<bar>x\<bar>" using assms(1) xp by simp
  have hi: "\<bar>x\<bar> < 2 ^ 1023" using xp assms(2) by (simp add: less_trans[of x "2 ^ 53" "2 ^ 1023"])
  from toDouble_error[OF lo hi] obtain y where
    y: "toDouble x = Some y" "\<bar>y - x\<bar> \<le> \<bar>x\<bar> * 2 powi (- 53)" by blast
  have "\<bar>x\<bar> * 2 powi (- 53) = x / 2 ^ 53" using xp by (simp add: power_int_minus field_simps)
  then show ?thesis using y by auto
qed

text \<open>
  A number \<open>m * 2 ^ e\<close> with \<open>\<bar>m\<bar> < 2 ^ 53\<close> is a double, and rounding leaves it as it is.
  So it is with the integers and the halves of integers below \<open>2 ^ 53\<close>.
\<close>

lemma toDouble_exact:
  assumes m: "\<bar>m\<bar> < 2 ^ 53" and e: "- 1074 \<le> e"
    and x: "\<bar>real_of_int m * 2 powi e\<bar> < 2 ^ 1024"
  shows "toDouble (real_of_int m * 2 powi e) = Some (real_of_int m * 2 powi e)"
proof -
  define x where "x = real_of_int m * 2 powi e"
  define E where "E = exponentOf x"
  have x4: "\<bar>x\<bar> < 2 ^ 1024" using x by (simp add: x_def)
  have le: "E - 52 \<le> e"
  proof (cases "\<bar>x\<bar> < 2 powi (- 1022)")
    case True
    then have "E = - 1022" unfolding E_def by (rule exponentOf_subnormal)
    then show ?thesis using e by simp
  next
    case False
    then have "2 powi (- 1022) \<le> \<bar>x\<bar>" by simp
    from exponentOf_lower[OF this x4] have "2 powi E \<le> \<bar>x\<bar>" by (simp add: E_def)
    also have "\<bar>x\<bar> = \<bar>real_of_int m\<bar> * 2 powi e" by (simp add: x_def abs_mult)
    also have "\<dots> < 2 ^ 53 * 2 powi e"
    proof (rule mult_strict_right_mono)
      have "real_of_int \<bar>m\<bar> < real_of_int (2 ^ 53)" using m by (simp only: of_int_less_iff)
      then show "\<bar>real_of_int m\<bar> < 2 ^ 53" by simp
    qed simp
    also have "\<dots> = 2 powi (53 + e)"
      using power_int_add[of "2::real" 53 e] by simp
    finally have "(2::real) powi E < 2 powi (53 + e)" .
    then have "E < 53 + e"
      using power_int_increasing[of "53 + e" E "2::real"] by (cases "E < 53 + e") simp_all
    then show ?thesis by simp
  qed
  define k where "k = nat (e - (E - 52))"
  have ke: "e = (E - 52) + int k" using le by (simp add: k_def)
  have p: "(2::real) powi e = 2 powi (E - 52) * 2 ^ k"
    unfolding ke by (subst power_int_add) simp_all
  have "x / 2 powi (E - 52) = real_of_int (m * 2 ^ k)"
    by (simp add: x_def p)
  then have "roundHalfEven (x / 2 powi (E - 52)) = m * 2 ^ k"
    by (simp only: roundHalfEven_int)
  then have "real_of_int (roundHalfEven (x / 2 powi (E - 52))) * 2 powi (E - 52) = x"
    by (simp add: x_def p)
  then have "toDouble x = Some x"
    using x4 by (simp add: toDouble_def Let_def E_def)
  then show ?thesis by (simp add: x_def)
qed

lemma toDouble_int:
  assumes "\<bar>n\<bar> < 2 ^ 53"
  shows "toDouble (real_of_int n) = Some (real_of_int n)"
proof -
  have "real_of_int \<bar>n\<bar> < real_of_int (2 ^ 53)" using assms by (simp only: of_int_less_iff)
  then have "\<bar>real_of_int n\<bar> < 2 ^ 53" by simp
  also have "(2::real) ^ 53 < 2 ^ 1024" by simp
  finally have "\<bar>real_of_int n * 2 powi 0\<bar> < 2 ^ 1024" by simp
  from toDouble_exact[OF assms _ this] show ?thesis by simp
qed

lemma toDouble_half:
  assumes "\<bar>m\<bar> < 2 ^ 53"
  shows "toDouble (real_of_int m / 2) = Some (real_of_int m / 2)"
proof -
  have "real_of_int \<bar>m\<bar> < real_of_int (2 ^ 53)" using assms by (simp only: of_int_less_iff)
  then have "\<bar>real_of_int m\<bar> < 2 ^ 53" by simp
  also have "(2::real) ^ 53 < 2 ^ 1024" by simp
  finally have "\<bar>real_of_int m * 2 powi (- 1)\<bar> < 2 ^ 1024" by (simp add: power_int_minus)
  from toDouble_exact[OF assms _ this] show ?thesis by (simp add: power_int_minus field_simps)
qed

lemma mathRound_round: "mathRound x = round x"
  by (simp add: mathRound_def round_def)

lemma mathRound_eq: "real_of_int n - 1 / 2 \<le> x \<Longrightarrow> x < real_of_int n + 1 / 2 \<Longrightarrow> mathRound x = n"
  unfolding mathRound_def by (rule floor_unique) simp_all

lemma round_bounds: "real_of_int (round x) - 1 / 2 \<le> x" "x < real_of_int (round x) + 1 / 2"
  unfolding round_def by linarith+

lemma of_int_ge_one: "0 < (k::int) \<Longrightarrow> 1 \<le> real_of_int k"
  by linarith

lemma of_int_less_power2: "(k::int) < 2 ^ n \<Longrightarrow> real_of_int k < 2 ^ n"
  by (metis of_int_less_iff of_int_numeral of_int_power)

section \<open>Properties of the Grid Planner\<close>

text \<open>
  The quotient of two integers, rounded to a double and then to an integer, is the exact
  quotient rounded to an integer: an exact quotient that is not half an odd integer is
  at least \<open>1 / (2 * den)\<close> away from the next one, farther than the rounding to a
  double moves it.
\<close>

lemma jsDivide_int_round:
  assumes den: "0 < den" "den < 2 ^ 53" and num: "0 \<le> num" "num < 2 ^ 52"
  shows "map_option mathRound (jsDivide (real_of_int num) (real_of_int den))
         = Some (round (real_of_int num / real_of_int den))"
proof (cases "num = 0")
  case True
  have "toDouble (real_of_int 0) = Some (real_of_int 0)" by (rule toDouble_int) simp
  then show ?thesis using True den by (simp add: jsDivide_def mathRound_round)
next
  case False
  define x where "x = real_of_int num / real_of_int den"
  define n where "n = round x"
  have ap: "0 < num" using False num by simp
  have ra: "1 \<le> real_of_int num" using ap by (rule of_int_ge_one)
  have rb: "1 \<le> real_of_int den" using den(1) by (rule of_int_ge_one)
  have rb53: "real_of_int den < 2 ^ 53" using den(2) by (rule of_int_less_power2)
  have ra52: "real_of_int num < 2 ^ 52" using num(2) by (rule of_int_less_power2)
  have xp: "0 < x" using ra rb by (simp add: x_def)
  have "1 / 2 ^ 53 < 1 / real_of_int den" using rb rb53 by (simp add: field_simps)
  also have "\<dots> \<le> x" using ra rb by (simp add: x_def field_simps)
  finally have xl: "1 / 2 ^ 54 \<le> x" by simp
  have "x \<le> real_of_int num" using ra rb by (simp add: x_def field_simps)
  then have xu: "x < 2 ^ 52" using ra52 by simp
  then have xu': "x < 2 ^ 53" by simp
  from toDouble_error_pos[OF xl xu'] obtain y where
    y: "toDouble x = Some y" "\<bar>y - x\<bar> \<le> x / 2 ^ 53" by blast
  have err: "\<bar>y - x\<bar> < 1 / (2 * real_of_int den)"
  proof -
    have "x / 2 ^ 53 = real_of_int num / (real_of_int den * 2 ^ 53)"
      unfolding x_def by simp
    also have "\<dots> < 2 ^ 52 / (real_of_int den * 2 ^ 53)"
      using ra52 rb by (intro divide_strict_right_mono) simp_all
    also have "\<dots> = 1 / (2 * real_of_int den)" by simp
    finally show ?thesis using y(2) by simp
  qed
  note nb = round_bounds[of x, folded n_def]
  have up: "y < real_of_int n + 1 / 2"
  proof -
    have "2 * num < (2 * n + 1) * den"
    proof -
      have "real_of_int (2 * num) < real_of_int ((2 * n + 1) * den)"
        using nb(2) rb by (simp add: x_def field_simps)
      then show ?thesis by (simp only: of_int_less_iff)
    qed
    then have "2 * num + 1 \<le> (2 * n + 1) * den" by simp
    then have "real_of_int (2 * num + 1) \<le> real_of_int ((2 * n + 1) * den)"
      by (simp only: of_int_le_iff)
    then have "real_of_int (2 * num + 1) / (2 * real_of_int den)
               \<le> real_of_int ((2 * n + 1) * den) / (2 * real_of_int den)"
      using rb by (intro divide_right_mono) simp_all
    moreover have "real_of_int (2 * num + 1) / (2 * real_of_int den)
        = x + 1 / (2 * real_of_int den)"
      using rb by (simp add: x_def field_simps)
    moreover have "real_of_int ((2 * n + 1) * den) / (2 * real_of_int den)
        = real_of_int n + 1 / 2"
      using rb by (simp add: field_simps)
    ultimately have "x + 1 / (2 * real_of_int den) \<le> real_of_int n + 1 / 2" by simp
    then show ?thesis using err by linarith
  qed
  have low: "real_of_int n - 1 / 2 \<le> y"
  proof (cases "x = real_of_int n - 1 / 2")
    case True
    have "\<bar>2 * n - 1\<bar> < 2 ^ 53"
    proof -
      have "real_of_int (2 * n - 1) = 2 * x" using True by simp
      then have "\<bar>real_of_int (2 * n - 1)\<bar> < 2 ^ 53" using xp xu by simp
      then have "real_of_int \<bar>2 * n - 1\<bar> < real_of_int (2 ^ 53)" by simp
      then show ?thesis by (simp only: of_int_less_iff)
    qed
    moreover have "real_of_int (2 * n - 1) / 2 = x" using True by simp
    ultimately have "toDouble x = Some x" using toDouble_half[of "2 * n - 1"] by (simp only:)
    then show ?thesis using y(1) True by simp
  next
    case False
    then have "real_of_int n - 1 / 2 < x" using nb(1) by simp
    then have "(2 * n - 1) * den < 2 * num"
    proof -
      assume "real_of_int n - 1 / 2 < x"
      then have "real_of_int ((2 * n - 1) * den) < real_of_int (2 * num)"
        using rb by (simp add: x_def field_simps)
      then show ?thesis by (simp only: of_int_less_iff)
    qed
    then have "(2 * n - 1) * den + 1 \<le> 2 * num" by simp
    then have "real_of_int ((2 * n - 1) * den + 1) \<le> real_of_int (2 * num)"
      by (simp only: of_int_le_iff)
    then have "real_of_int ((2 * n - 1) * den + 1) / (2 * real_of_int den)
               \<le> real_of_int (2 * num) / (2 * real_of_int den)"
      using rb by (intro divide_right_mono) simp_all
    moreover have "real_of_int ((2 * n - 1) * den + 1) / (2 * real_of_int den)
        = real_of_int n - 1 / 2 + 1 / (2 * real_of_int den)"
      using rb by (simp add: field_simps)
    moreover have "real_of_int (2 * num) / (2 * real_of_int den) = x" by (simp add: x_def)
    ultimately have "real_of_int n - 1 / 2 + 1 / (2 * real_of_int den) \<le> x" by simp
    then show ?thesis using err by linarith
  qed
  have "mathRound y = n" using low up by (rule mathRound_eq)
  then show ?thesis using y(1) den by (simp add: jsDivide_def x_def n_def)
qed

text \<open>
  A quotient rounded to a double and then multiplied, the product rounded again: the
  result is the exact product up to a relative error of \<open>3 / 2 ^ 53\<close>.
\<close>

lemma two_roundings:
  assumes q: "1 / 2 ^ 53 \<le> ratio" and W: "1 \<le> W" and v: "W * ratio < 2 ^ 50"
  shows "\<exists>a p. toDouble ratio = Some a \<and> toDouble (W * a) = Some p
           \<and> \<bar>p - W * ratio\<bar> \<le> 3 * (W * ratio) / 2 ^ 53"
proof -
  have rp: "0 < ratio" using q by (rule less_le_trans[rotated]) simp
  have "ratio \<le> W * ratio" using W rp by simp
  then have r50: "ratio < 2 ^ 50" using v by simp
  have "1 / 2 ^ 54 \<le> (1 / 2 ^ 53 :: real)" by simp
  then have r54: "1 / 2 ^ 54 \<le> ratio" using q by (rule order_trans)
  have r53: "ratio < 2 ^ 53" using r50 by (rule less_trans) simp
  from toDouble_error_pos[OF r54 r53] obtain a where
    a: "toDouble ratio = Some a" "\<bar>a - ratio\<bar> \<le> ratio / 2 ^ 53" by blast
  have al: "ratio - ratio / 2 ^ 53 \<le> a" and au: "a \<le> ratio + ratio / 2 ^ 53"
    using a(2) by linarith+
  have "ratio / 2 \<le> ratio - ratio / 2 ^ 53" using rp by (simp add: field_simps)
  then have alh: "ratio / 2 \<le> a" using al by simp
  have ap: "0 < a" using alh rp by simp
  have "1 / 2 ^ 54 \<le> ratio / 2" using q by simp
  also have "\<dots> \<le> a" by (rule alh)
  also have "a \<le> W * a" using W ap by simp
  finally have wl: "1 / 2 ^ 54 \<le> W * a" .
  have wau: "W * a \<le> W * ratio + W * ratio / 2 ^ 53"
  proof -
    have "W * a \<le> W * (ratio + ratio / 2 ^ 53)" using au W by (intro mult_left_mono) simp_all
    then show ?thesis by (simp add: algebra_simps)
  qed
  have wal: "W * ratio - W * ratio / 2 ^ 53 \<le> W * a"
  proof -
    have "W * (ratio - ratio / 2 ^ 53) \<le> W * a" using al W by (intro mult_left_mono) simp_all
    then show ?thesis by (simp add: algebra_simps)
  qed
  have vp: "0 < W * ratio" using W rp by simp
  have "W * ratio / 2 ^ 53 \<le> W * ratio" using vp by (simp add: field_simps)
  then have w2: "W * a \<le> 2 * (W * ratio)" using wau by simp
  then have wu: "W * a < 2 ^ 53" using v by simp
  from toDouble_error_pos[OF wl wu] obtain p where
    p: "toDouble (W * a) = Some p" "\<bar>p - W * a\<bar> \<le> W * a / 2 ^ 53" by blast
  have "W * a / 2 ^ 53 \<le> 2 * (W * ratio) / 2 ^ 53"
    using w2 by (intro divide_right_mono) simp_all
  then have e1: "\<bar>p - W * a\<bar> \<le> 2 * (W * ratio) / 2 ^ 53" using p(2) by simp
  have e2: "\<bar>W * a - W * ratio\<bar> \<le> W * ratio / 2 ^ 53" using wau wal by linarith
  have "\<bar>p - W * ratio\<bar> \<le> \<bar>p - W * a\<bar> + \<bar>W * a - W * ratio\<bar>" by simp
  also have "\<dots> \<le> 2 * (W * ratio) / 2 ^ 53 + W * ratio / 2 ^ 53" using e1 e2 by simp
  also have "\<dots> = 3 * (W * ratio) / 2 ^ 53" by simp
  finally show ?thesis using a(1) p(1) by blast
qed

lemma height_two_roundings:
  assumes w: "0 < w" "w < 2 ^ 53" and h: "0 < h" and W: "0 < W" and s: "W * h < 2 ^ 50"
  shows "\<exists>a p. jsDivide (real_of_int h) (real_of_int w) = Some a
           \<and> jsTimes (real_of_int W) a = Some p
           \<and> \<bar>p - real_of_int W * (real_of_int h / real_of_int w)\<bar> < 1 / (2 * real_of_int w)"
proof -
  define ratio where "ratio = real_of_int h / real_of_int w"
  have rw: "1 \<le> real_of_int w" using w(1) by (rule of_int_ge_one)
  have rh: "1 \<le> real_of_int h" using h by (rule of_int_ge_one)
  have rW: "1 \<le> real_of_int W" using W by (rule of_int_ge_one)
  have w53: "real_of_int w < 2 ^ 53" using w(2) by (rule of_int_less_power2)
  have "real_of_int (W * h) < 2 ^ 50" using s by (rule of_int_less_power2)
  then have s50: "real_of_int W * real_of_int h < 2 ^ 50" by simp
  have "1 / 2 ^ 53 \<le> 1 / real_of_int w" using rw w53 by (simp add: field_simps)
  also have "\<dots> \<le> ratio" using rh rw by (simp add: ratio_def field_simps)
  finally have r53: "1 / 2 ^ 53 \<le> ratio" .
  have vv: "real_of_int W * ratio = real_of_int W * real_of_int h / real_of_int w"
    by (simp add: ratio_def)
  have "real_of_int W * ratio \<le> real_of_int W * real_of_int h"
    unfolding vv using rw rW rh by (simp add: field_simps)
  then have v50: "real_of_int W * ratio < 2 ^ 50" using s50 by simp
  from two_roundings[OF r53 rW v50] obtain a p where
    ap: "toDouble ratio = Some a" "toDouble (real_of_int W * a) = Some p"
        "\<bar>p - real_of_int W * ratio\<bar> \<le> 3 * (real_of_int W * ratio) / 2 ^ 53" by blast
  have "3 * (real_of_int W * ratio) / 2 ^ 53
        = 3 * (real_of_int W * real_of_int h) / 2 ^ 53 / real_of_int w"
    by (simp add: vv)
  also have "\<dots> < 3 * 2 ^ 50 / 2 ^ 53 / real_of_int w"
    using s50 rw by (intro divide_strict_right_mono) simp_all
  also have "\<dots> \<le> 1 / (2 * real_of_int w)" using rw by (simp add: field_simps)
  finally have "\<bar>p - real_of_int W * ratio\<bar> < 1 / (2 * real_of_int w)" using ap(3) by simp
  then show ?thesis using ap(1,2) w(1) by (auto simp: jsDivide_def jsTimes_def ratio_def)
qed

lemma height_rounding:
  assumes w: "0 < w" "w < 2 ^ 53" and h: "0 < h" and W: "0 < W" and s: "W * h < 2 ^ 50"
  shows "\<exists>H. finalMosaicHeightOf None None tileSize W h w = Some H
           \<and> round (real_of_int W * (real_of_int h / real_of_int w)) - 1 \<le> H
           \<and> H \<le> round (real_of_int W * (real_of_int h / real_of_int w))
           \<and> ((2 * W * h) mod (2 * w) = w
               \<or> H = round (real_of_int W * (real_of_int h / real_of_int w)))"
proof -
  define v where "v = real_of_int W * (real_of_int h / real_of_int w)"
  define n where "n = round v"
  have rw: "1 \<le> real_of_int w" using w(1) by (rule of_int_ge_one)
  from height_two_roundings[OF assms] obtain a p where
    ap: "jsDivide (real_of_int h) (real_of_int w) = Some a"
        "jsTimes (real_of_int W) a = Some p"
        "\<bar>p - v\<bar> < 1 / (2 * real_of_int w)"
    unfolding v_def by blast
  have H: "finalMosaicHeightOf None None tileSize W h w = Some (mathRound p)"
    using ap(1,2) by (simp add: finalMosaicHeightOf_def truthy_def)
  have vw: "v * real_of_int w = real_of_int (W * h)" using rw by (simp add: v_def)
  note nb = round_bounds[of v, folded n_def]
  have half: "1 / (2 * real_of_int w) \<le> 1 / 2" using rw by (simp add: field_simps)
  have up: "v + 1 / (2 * real_of_int w) \<le> real_of_int n + 1 / 2"
  proof -
    have "v * real_of_int w < (real_of_int n + 1 / 2) * real_of_int w"
      using nb(2) rw by (intro mult_strict_right_mono) simp_all
    then have "real_of_int (2 * (W * h)) < real_of_int ((2 * n + 1) * w)"
      unfolding vw by (simp add: algebra_simps)
    then have "2 * (W * h) < (2 * n + 1) * w" by (simp only: of_int_less_iff)
    then have "2 * (W * h) + 1 \<le> (2 * n + 1) * w" by simp
    then have "real_of_int (2 * (W * h) + 1) \<le> real_of_int ((2 * n + 1) * w)"
      by (simp only: of_int_le_iff)
    then have "real_of_int (2 * (W * h) + 1) / (2 * real_of_int w)
               \<le> real_of_int ((2 * n + 1) * w) / (2 * real_of_int w)"
      using rw by (intro divide_right_mono) simp_all
    moreover have "real_of_int (2 * (W * h) + 1) / (2 * real_of_int w)
        = v + 1 / (2 * real_of_int w)"
      using rw by (simp add: v_def field_simps)
    moreover have "real_of_int ((2 * n + 1) * w) / (2 * real_of_int w) = real_of_int n + 1 / 2"
      using rw by (simp add: field_simps)
    ultimately show ?thesis by simp
  qed
  have pu: "p < real_of_int n + 1 / 2" using up ap(3) by linarith
  have pl: "real_of_int (n - 1) - 1 / 2 < p" using nb(1) ap(3) half by simp
  have le: "mathRound p \<le> n" unfolding mathRound_def using pu by linarith
  have ge: "n - 1 \<le> mathRound p" unfolding mathRound_def using pl by linarith
  have eq: "mathRound p = n" if nt: "(2 * W * h) mod (2 * w) \<noteq> w"
  proof -
    have "(real_of_int n - 1 / 2) * real_of_int w \<le> v * real_of_int w"
      using nb(1) rw by (intro mult_right_mono) simp_all
    then have "real_of_int ((2 * n - 1) * w) \<le> real_of_int (2 * (W * h))"
      unfolding vw by (simp add: algebra_simps)
    then have l: "(2 * n - 1) * w \<le> 2 * (W * h)" by (simp only: of_int_le_iff)
    have "(2 * n - 1) * w \<noteq> 2 * (W * h)"
    proof
      assume e: "(2 * n - 1) * w = 2 * (W * h)"
      have "2 * W * h = w + (n - 1) * (2 * w)" using e by (simp add: algebra_simps)
      then have "(2 * W * h) mod (2 * w) = w mod (2 * w)" by (metis mod_mult_self1)
      also have "\<dots> = w" using w(1) by simp
      finally show False using nt by simp
    qed
    then have "(2 * n - 1) * w + 1 \<le> 2 * (W * h)" using l by simp
    then have "real_of_int ((2 * n - 1) * w + 1) \<le> real_of_int (2 * (W * h))"
      by (simp only: of_int_le_iff)
    then have "real_of_int ((2 * n - 1) * w + 1) / (2 * real_of_int w)
               \<le> real_of_int (2 * (W * h)) / (2 * real_of_int w)"
      using rw by (intro divide_right_mono) simp_all
    moreover have "real_of_int ((2 * n - 1) * w + 1) / (2 * real_of_int w)
        = real_of_int n - 1 / 2 + 1 / (2 * real_of_int w)"
      using rw by (simp add: field_simps)
    moreover have "real_of_int (2 * (W * h)) / (2 * real_of_int w) = v"
      using rw by (simp add: v_def field_simps)
    ultimately have "real_of_int n - 1 / 2 + 1 / (2 * real_of_int w) \<le> v" by simp
    then have "real_of_int n - 1 / 2 \<le> p" using ap(3) by linarith
    then show ?thesis using pu by (rule mathRound_eq)
  qed
  show ?thesis
    unfolding v_def[symmetric] n_def[symmetric] using H le ge eq by auto
qed

lemma finalMosaicHeightOf_absent:
  "\<not> truthy mosaicHeight \<Longrightarrow> \<not> truthy outputHeight
   \<Longrightarrow> finalMosaicHeightOf mosaicHeight outputHeight tileSize W h w
       = finalMosaicHeightOf None None tileSize W h w"
  by (cases mosaicHeight; cases outputHeight) (simp_all add: finalMosaicHeightOf_def truthy_def)

text \<open>
  Claim C9, as the code has it. Without an explicit grid width (the option is
  \<^verbatim>\<open>null\<close> or 0) the grid width is the output width divided by the tile size, rounded to
  the nearest integer: the rounding of the quotient to a double does not change the
  result (sizes below \<open>2 ^ 52\<close>). Without an explicit grid height and without an output
  height, the grid height is the rounded double-precision product of the grid width and
  the double nearest to the quotient of the input height by the input width. It is the
  exact value \<open>gridWidth * (inputHeight / inputWidth)\<close> rounded to the nearest integer
  whenever the exact value is not half-way between two integers; when it is half-way,
  the grid height is that integer or the one below. For the output width 1200 and the
  tile size 6 the grid width is 200, and with an input half as high as wide the grid
  height is 100.
\<close>

theorem grid_dimensions:
  "(\<not> truthy mosaicWidth \<and> 0 < tileSize \<and> tileSize < 2 ^ 53
       \<and> 0 \<le> outputWidth \<and> outputWidth < 2 ^ 52
      \<longrightarrow> computedMosaicWidth mosaicWidth outputWidth tileSize
            = Some (round (real_of_int outputWidth / real_of_int tileSize)))
   \<and> (\<not> truthy mosaicHeight \<and> \<not> truthy outputHeight
       \<and> 0 < inputWidth \<and> inputWidth < 2 ^ 53 \<and> 0 < inputHeight \<and> 0 < finalMosaicWidth
       \<and> finalMosaicWidth * inputHeight < 2 ^ 50
      \<longrightarrow> (\<exists>H. finalMosaicHeightOf mosaicHeight outputHeight tileSize finalMosaicWidth
                   inputHeight inputWidth = Some H
               \<and> round (real_of_int finalMosaicWidth
                          * (real_of_int inputHeight / real_of_int inputWidth)) - 1 \<le> H
               \<and> H \<le> round (real_of_int finalMosaicWidth
                          * (real_of_int inputHeight / real_of_int inputWidth))
               \<and> ((2 * finalMosaicWidth * inputHeight) mod (2 * inputWidth) = inputWidth
                   \<or> H = round (real_of_int finalMosaicWidth
                          * (real_of_int inputHeight / real_of_int inputWidth)))))
   \<and> computedMosaicWidth None 1200 6 = Some 200
   \<and> (inputWidth = 2 * inputHeight \<and> inputHeight \<noteq> 0
      \<longrightarrow> finalMosaicHeightOf None None 6 200 inputHeight inputWidth = Some 100)"
proof (intro conjI impI)
  assume a: "\<not> truthy mosaicWidth \<and> 0 < tileSize \<and> tileSize < 2 ^ 53
       \<and> 0 \<le> outputWidth \<and> outputWidth < 2 ^ 52"
  then have "map_option mathRound (jsDivide (real_of_int outputWidth) (real_of_int tileSize))
         = Some (round (real_of_int outputWidth / real_of_int tileSize))"
    by (intro jsDivide_int_round) simp_all
  then show "computedMosaicWidth mosaicWidth outputWidth tileSize
            = Some (round (real_of_int outputWidth / real_of_int tileSize))"
    using a by (simp add: computedMosaicWidth_def)
next
  assume a: "\<not> truthy mosaicHeight \<and> \<not> truthy outputHeight
       \<and> 0 < inputWidth \<and> inputWidth < 2 ^ 53 \<and> 0 < inputHeight \<and> 0 < finalMosaicWidth
       \<and> finalMosaicWidth * inputHeight < 2 ^ 50"
  then have e: "finalMosaicHeightOf mosaicHeight outputHeight tileSize finalMosaicWidth
        inputHeight inputWidth
      = finalMosaicHeightOf None None tileSize finalMosaicWidth inputHeight inputWidth"
    by (intro finalMosaicHeightOf_absent) simp_all
  from a show "\<exists>H. finalMosaicHeightOf mosaicHeight outputHeight tileSize finalMosaicWidth
                   inputHeight inputWidth = Some H
               \<and> round (real_of_int finalMosaicWidth
                          * (real_of_int inputHeight / real_of_int inputWidth)) - 1 \<le> H
               \<and> H \<le> round (real_of_int finalMosaicWidth
                          * (real_of_int inputHeight / real_of_int inputWidth))
               \<and> ((2 * finalMosaicWidth * inputHeight) mod (2 * inputWidth) = inputWidth
                   \<or> H = round (real_of_int finalMosaicWidth
                          * (real_of_int inputHeight / real_of_int inputWidth)))"
    unfolding e by (intro height_rounding) simp_all
next
  have "map_option mathRound (jsDivide (real_of_int 1200) (real_of_int 6))
         = Some (round (real_of_int 1200 / real_of_int 6))"
    by (intro jsDivide_int_round) simp_all
  then show "computedMosaicWidth None 1200 6 = Some 200"
    by (simp add: computedMosaicWidth_def truthy_def round_def)
next
  assume a: "inputWidth = 2 * inputHeight \<and> inputHeight \<noteq> 0"
  then have q: "real_of_int inputHeight / real_of_int inputWidth = real_of_int 1 / 2" by simp
  have h: "toDouble (real_of_int 1 / 2) = Some (real_of_int 1 / 2)" by (rule toDouble_half) simp
  have c: "toDouble (real_of_int 100) = Some (real_of_int 100)" by (rule toDouble_int) simp
  show "finalMosaicHeightOf None None 6 200 inputHeight inputWidth = Some 100"
    using a h c unfolding finalMosaicHeightOf_def jsDivide_def jsTimes_def q
    by (simp add: truthy_def mathRound_def)
qed

theorem grid_dimensions_witness:
  "computedMosaicWidth None 1000 6 = Some 167
   \<and> round (1000 / 6 :: real) = 167
   \<and> finalMosaicHeightOf None None 6 167 3 4 = Some 125
   \<and> round (167 * (3 / 4) :: real) = 125
   \<and> (2 * 167 * 3) mod (2 * 4) = (2::int)
   \<and> finalMosaicHeightOf None None 6 200 400 800 = Some 100"
proof -
  have a: "jsDivide 1000 6 = Some (5864062014805333 / 2 ^ 45)"
    by (simp add: jsDivide_def double_eval)
  have b': "jsDivide 3 4 = Some (3 / 4)"
    by (simp add: jsDivide_def double_eval)
  have c': "jsTimes 167 (3 / 4) = Some (501 / 4)"
    by (simp add: jsTimes_def double_eval)
  have d: "jsDivide 400 800 = Some (1 / 2)"
    by (simp add: jsDivide_def double_eval)
  have e: "jsTimes 200 (1 / 2) = Some 100"
    by (simp add: jsTimes_def double_eval)
  have c: ?thesis
    by (simp add: computedMosaicWidth_def finalMosaicHeightOf_def truthy_def a b' c' d e
        mathRound_def round_def)
  show ?thesis
    using grid_dimensions[where mosaicWidth = None and tileSize = 6 and outputWidth = 1000
        and mosaicHeight = None and outputHeight = None and inputWidth = 4
        and inputHeight = 3 and finalMosaicWidth = 167]
    by - (rule c)
qed

text \<open>
  Claim C9 as it is written fails where the exact value is half-way between two
  integers. For a source image of 800 by 410 pixels and a grid width of 200 the exact
  value \<open>200 * (410 / 800)\<close> is 102.5, which rounds to 103; the double nearest to
  \<open>410 / 800\<close> is below 0.5125, its product with 200 rounds to the double below 102.5,
  and the grid height is 102. For 22 by 15 pixels and a grid width of 11 the grid height
  is 7, not 8.
\<close>

theorem grid_height_double_rounding:
  "finalMosaicHeightOf None None 6 200 410 800 = Some 102
   \<and> round (200 * (410 / 800) :: real) = 103
   \<and> finalMosaicHeightOf None None 6 11 15 22 = Some 7
   \<and> round (11 * (15 / 22) :: real) = 8"
proof -
  have a: "jsDivide 410 800 = Some (4616189618054758 / 2 ^ 53)"
    by (simp add: jsDivide_def double_eval)
  have p: "jsTimes 200 (2308094809027379 / 4503599627370496)
         = Some (7212796278210559 / 2 ^ 46)"
    by (simp add: jsTimes_def double_eval)
  have a': "jsDivide 15 22 = Some (6141272219141585 / 2 ^ 53)"
    by (simp add: jsDivide_def double_eval)
  have p': "jsTimes 11 (6141272219141585 / 9007199254740992)
         = Some (8444249301319679 / 2 ^ 50)"
    by (simp add: jsTimes_def double_eval)
  show ?thesis
    by (simp add: finalMosaicHeightOf_def truthy_def a p a' p' mathRound_def round_def)
qed

section \<open>Properties of the Zoom Sequence Controller\<close>

text \<open>Rendering a list of frames: what the result holds.\<close>

lemma renderFrames_append:
  "renderFrames rm rz w completed (xs @ ys)
   = (case renderFrames rm rz w completed xs of
        Inl failure \<Rightarrow> Inl failure
      | Inr (fs, w') \<Rightarrow> renderFrames rm rz w' fs ys)"
  by (induction xs arbitrary: w completed) (auto split: sum.splits)

lemma renderFrames_Inr:
  "renderFrames rm rz w completed fs = Inr (fs', w') \<Longrightarrow> fs' = completed @ fs"
proof (induction fs arbitrary: w completed)
  case Nil
  then show ?case by simp
next
  case (Cons f fs)
  from Cons.prems obtain w1 where
    "renderFrames rm rz w1 (completed @ [f]) fs = Inr (fs', w')"
    by (auto split: sum.splits)
  from Cons.IH[OF this] show ?case by simp
qed

lemma renderFrames_Inl:
  "renderFrames rm rz w completed fs = Inl (e, fs', w')
   \<Longrightarrow> \<exists>m<length fs. fs' = completed @ take m fs \<and> renderFrame rm rz w' (fs ! m) = Inl e"
proof (induction fs arbitrary: w completed)
  case Nil
  then show ?case by simp
next
  case (Cons f fs)
  show ?case
  proof (cases "renderFrame rm rz w f")
    case (Inl e')
    then have "e' = e" "fs' = completed" "w' = w" using Cons.prems by simp_all
    then have "fs' = completed @ take 0 (f # fs) \<and> renderFrame rm rz w' ((f # fs) ! 0) = Inl e"
      using Inl by simp
    then show ?thesis by blast
  next
    case (Inr w1)
    then have "renderFrames rm rz w1 (completed @ [f]) fs = Inl (e, fs', w')"
      using Cons.prems by simp
    from Cons.IH[OF this] obtain m where
      m: "m < length fs" "fs' = (completed @ [f]) @ take m fs"
         "renderFrame rm rz w' (fs ! m) = Inl e"
      by blast
    then have "Suc m < length (f # fs) \<and> fs' = completed @ take (Suc m) (f # fs)
        \<and> renderFrame rm rz w' ((f # fs) ! Suc m) = Inl e"
      by simp
    then show ?thesis by blast
  qed
qed

lemma renderFrame_neverFails:
  assumes "neverFails rm rz"
  shows "\<exists>w'. renderFrame rm rz w f = Inr w'"
proof -
  obtain i kd n fname where f: "f = (i, kd, n, fname)" by (cases f) auto
  show ?thesis using assms unfolding f neverFails_def by (cases kd) auto
qed

lemma renderFrames_neverFails:
  assumes "neverFails rm rz"
  shows "\<exists>w'. renderFrames rm rz w completed fs = Inr (completed @ fs, w')"
proof (induction fs arbitrary: w completed)
  case Nil
  then show ?case by simp
next
  case (Cons f fs)
  from renderFrame_neverFails[OF assms, of w f] obtain w1 where
    w1: "renderFrame rm rz w f = Inr w1" by blast
  from Cons.IH[of w1 "completed @ [f]"] show ?case using w1 by simp
qed

text \<open>
  The inner loop renders the zoom steps \<open>k\<close> to \<open>n - 1\<close> as the frames
  \<open>first + k\<close> to \<open>first + n - 1\<close>, when the frame counter is the number of frames
  completed.
\<close>

lemma zoomStepsLoop_render:
  "globalFrameNumber st = length (frames st) \<Longrightarrow> length (frames st) + 1 = first + k
   \<Longrightarrow> zoomStepsLoop mp rz base ext options it st [k..<n]
       = (case renderFrames rm rz (world st) (frames st)
                 (map (\<lambda>k. (it,
                             ZoomStep k (zoomTileSize mp (mosaicOptions_tileSize options)
                                           (zoomFactor options) k),
                             first + k, frameOutputPath base ext (first + k)))
                    [k..<n]) of
            Inl (e, fs, w') \<Rightarrow>
              Inl (e, st\<lparr>globalFrameNumber := length fs + 1, frames := fs, world := w'\<rparr>)
          | Inr (fs, w') \<Rightarrow>
              Inr (st\<lparr>globalFrameNumber := length fs, frames := fs, world := w'\<rparr>))"
proof (induction "n - k" arbitrary: k st)
  case 0
  then have e: "[k..<n] = []" by simp
  show ?case unfolding e using "0.prems"(1) by simp
next
  case (Suc d)
  let ?size = "zoomTileSize mp (mosaicOptions_tileSize options) (zoomFactor options)"
  let ?entry = "\<lambda>k. (it, ZoomStep k (?size k), first + k, frameOutputPath base ext (first + k))"
  have kn: "k < n" using Suc.hyps(2) by simp
  then have u: "[k..<n] = k # [Suc k..<n]" by (rule upt_conv_Cons)
  have g: "globalFrameNumber st + 1 = first + k" using Suc.prems by simp
  show ?case
  proof (cases "rz (world st) (?size k) (frameOutputPath base ext (first + k))")
    case (Inl e)
    then show ?thesis using g Suc.prems(1) unfolding u by (simp add: Let_def)
  next
    case (Inr w1)
    let ?st1 = "st\<lparr>globalFrameNumber := first + k,
                    frames := frames st @ [?entry k], world := w1\<rparr>"
    have d: "d = n - Suc k" using Suc.hyps(2) by simp
    have a: "globalFrameNumber ?st1 = length (frames ?st1)" using Suc.prems by simp
    have b': "length (frames ?st1) + 1 = first + Suc k" using Suc.prems by simp
    note ih = Suc.hyps(1)[OF d a b']
    have "zoomStepsLoop mp rz base ext options it st [k..<n]
        = zoomStepsLoop mp rz base ext options it ?st1 [Suc k..<n]"
      unfolding u using Inr g by (simp add: Let_def)
    also note ih
    finally show ?thesis
      unfolding u using Inr by (simp split: sum.splits)
  qed
qed

lemma floor_div_nat: "nat \<lfloor>real n / real (S + 1)\<rfloor> = n div (S + 1)"
  using floor_divide_of_nat_eq[where ?'a = real, of n "S + 1"] by (simp only: nat_int)

text \<open>
  One pass of the outer loop, entered after \<open>j\<close> passes with \<open>j * (S + 1)\<close> frames
  completed, renders the frames of iteration \<open>j + 1\<close>.
\<close>

lemma zoomIteration_render:
  assumes g: "globalFrameNumber st = length (frames st)"
    and l: "length (frames st) = j * (zoomSteps options + 1)"
    and c: "currentInputPath st
            = (if j = 0 then input else frameOutputPath base ext (j * (zoomSteps options + 1)))"
  shows "zoomIteration mp rm rz base ext options st
       = (case renderFrames rm rz (world st) (frames st)
                 (iterationFrames mp input base ext options (j + 1)) of
            Inl (e, fs, w') \<Rightarrow>
              Inl (e, st\<lparr>globalFrameNumber := length fs + 1, frames := fs, world := w'\<rparr>)
          | Inr (fs, w') \<Rightarrow>
              Inr (st\<lparr>globalFrameNumber := length fs,
                      currentInputPath := frameOutputPath base ext (length fs),
                      frames := fs, world := w'\<rparr>))"
proof -
  let ?S = "zoomSteps options"
  let ?first = "j * (?S + 1) + 1"
  let ?size = "zoomTileSize mp (mosaicOptions_tileSize options) (zoomFactor options)"
  let ?steps = "map (\<lambda>k. (j + 1, ZoomStep k (?size k), ?first + k,
                            frameOutputPath base ext (?first + k))) [1..<?S + 1]"
  let ?base = "(j + 1, BaseMosaic (currentInputPath st), ?first,
                frameOutputPath base ext ?first)"
  have "j * (?S + 1) div (?S + 1) = j" by (rule nonzero_mult_div_cancel_right) simp
  then have it: "nat \<lfloor>real (globalFrameNumber st) / real (?S + 1)\<rfloor> + 1 = j + 1"
    unfolding floor_div_nat g l by (simp only:)
  have fr: "iterationFrames mp input base ext options (j + 1) = ?base # ?steps"
    using c by (auto simp: iterationFrames_def Let_def)
  have n: "globalFrameNumber st + 1 = ?first" using g l by simp
  show ?thesis
  proof (cases "rm (world st) (currentInputPath st) (frameOutputPath base ext ?first)")
    case (Inl e)
    then show ?thesis
      unfolding fr zoomIteration_def Let_def it using n g by simp
  next
    case (Inr w1)
    let ?st1 = "st\<lparr>globalFrameNumber := ?first, frames := frames st @ [?base], world := w1\<rparr>"
    have a: "globalFrameNumber ?st1 = length (frames ?st1)" using l by simp
    have b': "length (frames ?st1) + 1 = ?first + 1" using l by simp
    note zs = zoomStepsLoop_render[OF a b', of mp rz base ext options "j + 1" "?S + 1" rm]
    have "zoomIteration mp rm rz base ext options st
        = (case zoomStepsLoop mp rz base ext options (j + 1) ?st1 [1..<?S + 1] of
             Inl failure \<Rightarrow> Inl failure
           | Inr st2 \<Rightarrow>
               Inr (st2\<lparr>currentInputPath :=
                          frameOutputPath base ext (globalFrameNumber st2)\<rparr>))"
      unfolding zoomIteration_def Let_def it using Inr n by simp
    then show ?thesis
      unfolding fr zs using Inr by (simp split: sum.splits)
  qed
qed

text \<open>
  The quotient of the frame counter by the number of frames of an iteration, below
  \<open>2 ^ 53\<close>: the double that the division gives has the integer part of the exact
  quotient, and it is below a natural number exactly when the exact quotient is. So
  \<^verbatim>\<open>Math.floor(globalFrameNumber / (zoomSteps + 1))\<close> and the test of the
  \<^verbatim>\<open>while\<close> loop are the same for the rounded and for the exact quotient.
\<close>

lemma counter_quotient:
  fixes n d :: nat
  assumes n: "n < 2 ^ 53" and d: "0 < d" "d < 2 ^ 53"
  shows "\<exists>y. jsDivide (real n) (real d) = Some y
           \<and> \<lfloor>y\<rfloor> = \<lfloor>real n / real d\<rfloor>
           \<and> (\<forall>M::nat. y < real M \<longleftrightarrow> real n / real d < real M)"
proof -
  define x where "x = real n / real d"
  define c where "c = n div d"
  define rest where "rest = n mod d"
  have rd: "1 \<le> real d" using d(1) by simp
  have nd: "real n = real c * real d + real rest"
    unfolding c_def rest_def by (metis of_nat_add of_nat_mult div_mult_mod_eq)
  have rl: "rest < d" unfolding rest_def using d(1) by simp
  have xe: "x = real c + real rest / real d"
    unfolding x_def nd using rd by (simp add: field_simps)
  have fx: "\<lfloor>x\<rfloor> = int c"
    unfolding x_def c_def by (simp add: floor_divide_of_nat_eq)
  have "\<exists>y. toDouble x = Some y \<and> real c \<le> y \<and> y < real c + 1"
  proof (cases "rest = 0")
    case True
    then have xc: "x = real_of_int (int c)" using xe by simp
    have "c \<le> n" unfolding c_def by simp
    then have "int c < 2 ^ 53" using n by simp
    then have "\<bar>int c\<bar> < 2 ^ 53" by simp
    from toDouble_int[OF this] have "toDouble x = Some x" unfolding xc .
    then show ?thesis using xc by simp
  next
    case False
    then have r1: "1 \<le> real rest" by simp
    have np: "0 < n" using False unfolding rest_def by (cases n) simp_all
    have rn: "1 \<le> real n" using np by simp
    have n53: "real n < 2 ^ 53" using n by (metis of_nat_less_iff of_nat_numeral of_nat_power)
    have d53: "real d < 2 ^ 53" using d(2) by (metis of_nat_less_iff of_nat_numeral of_nat_power)
    have "1 / 2 ^ 53 < 1 / real d" using rd d53 by (simp add: field_simps)
    also have "\<dots> \<le> x" unfolding x_def using rn rd by (simp add: field_simps)
    finally have xl: "1 / 2 ^ 54 \<le> x" by simp
    have "x \<le> real n" unfolding x_def using rn rd by (simp add: field_simps)
    then have xu: "x < 2 ^ 53" using n53 by simp
    from toDouble_error_pos[OF xl xu] obtain y where
      y: "toDouble x = Some y" "\<bar>y - x\<bar> \<le> x / 2 ^ 53" by blast
    have "x / 2 ^ 53 = real n / 2 ^ 53 / real d" by (simp add: x_def)
    also have "\<dots> < 1 / real d"
      using n53 rd by (intro divide_strict_right_mono) simp_all
    finally have err: "\<bar>y - x\<bar> < 1 / real d" using y(2) by simp
    have "1 / real d \<le> real rest / real d"
      using r1 rd by (intro divide_right_mono) simp_all
    then have lo: "real c + 1 / real d \<le> x" using xe by simp
    have "rest + 1 \<le> d" using rl by simp
    then have "real (rest + 1) \<le> real d" by (simp only: of_nat_le_iff)
    then have "real rest + 1 \<le> real d" by simp
    then have "(real rest + 1) / real d \<le> real d / real d"
      using rd by (intro divide_right_mono) simp_all
    then have "real rest / real d + 1 / real d \<le> 1" using rd by (simp add: add_divide_distrib)
    then have hi: "x + 1 / real d \<le> real c + 1" using xe by simp
    have "real c \<le> y" "y < real c + 1" using lo hi err by linarith+
    then show ?thesis using y(1) by blast
  qed
  then obtain y where y: "toDouble x = Some y" "real c \<le> y" "y < real c + 1" by blast
  have fy: "\<lfloor>y\<rfloor> = int c" using y(2,3) by (intro floor_unique) simp_all
  have "y < real M \<longleftrightarrow> x < real M" for M :: nat
  proof -
    have "y < real_of_int (int M) \<longleftrightarrow> \<lfloor>y\<rfloor> < int M" by (rule floor_less_iff[symmetric])
    moreover have "x < real_of_int (int M) \<longleftrightarrow> \<lfloor>x\<rfloor> < int M" by (rule floor_less_iff[symmetric])
    ultimately show ?thesis using fx fy by simp
  qed
  then show ?thesis using y(1) fx fy d(1) by (auto simp: jsDivide_def x_def)
qed

lemma length_iterationFrames:
  "length (iterationFrames mp input base ext options i) = zoomSteps options + 1"
  by (simp add: iterationFrames_def Let_def)

lemma continueZoom_iff:
  "maxIterations options = Some M \<Longrightarrow>
     continueZoom options n \<longleftrightarrow> n div (zoomSteps options + 1) < M"
proof -
  assume m: "maxIterations options = Some M"
  have "real n / real (zoomSteps options + 1) < real M \<longleftrightarrow> real n < real M * real (zoomSteps options + 1)"
    by (simp add: pos_divide_less_eq)
  also have "\<dots> \<longleftrightarrow> n < M * (zoomSteps options + 1)"
    by (metis of_nat_less_iff of_nat_mult)
  also have "\<dots> \<longleftrightarrow> n div (zoomSteps options + 1) < M"
    by (simp add: div_less_iff_less_mult)
  finally show ?thesis using m by (simp add: continueZoom_def)
qed

text \<open>
  With \<open>maxIterations = M\<close> the loop, entered after \<open>j \<le> M\<close> passes, returns, and its
  result is the rendering of the frames of the iterations \<open>j + 1\<close> to \<open>M\<close>.
\<close>

lemma zoomLoop_bounded_render:
  assumes m: "maxIterations options = Some M"
  shows "j \<le> M \<Longrightarrow> globalFrameNumber st = length (frames st)
     \<Longrightarrow> length (frames st) = j * (zoomSteps options + 1)
     \<Longrightarrow> currentInputPath st
           = (if j = 0 then input else frameOutputPath base ext (j * (zoomSteps options + 1)))
     \<Longrightarrow> \<exists>res. zoomLoop mp rm rz base ext options st = Some res
           \<and> rendered res (renderFrames rm rz (world st) (frames st)
                 (concat (map (iterationFrames mp input base ext options) [j + 1..<M + 1])))"
proof (induction "M - j" arbitrary: j st)
  case 0
  then have jm: "j = M" by simp
  have dv: "globalFrameNumber st div (zoomSteps options + 1) = j"
    unfolding "0.prems"(2,3) by (rule nonzero_mult_div_cancel_right) simp
  have nc: "\<not> continueZoom options (globalFrameNumber st)"
    unfolding continueZoom_iff[OF m] dv using jm by simp
  have e: "[j + 1..<M + 1] = []" using jm by simp
  have "zoomLoop mp rm rz base ext options st = Some (Inr st)"
    using nc by (subst zoomLoop.simps) simp
  then show ?case unfolding e using "0.prems"(2) by (simp add: rendered_def)
next
  case (Suc d)
  let ?S = "zoomSteps options"
  let ?itf = "iterationFrames mp input base ext options"
  have lt: "j < M" using Suc.hyps(2) by simp
  have dv: "globalFrameNumber st div (?S + 1) = j"
    unfolding Suc.prems(2,3) by (rule nonzero_mult_div_cancel_right) simp
  have c: "continueZoom options (globalFrameNumber st)"
    unfolding continueZoom_iff[OF m] dv using lt .
  have u: "[j + 1..<M + 1] = (j + 1) # [j + 1 + 1..<M + 1]"
    using lt by (simp add: upt_conv_Cons del: upt_Suc)
  have cc: "concat (map ?itf [j + 1..<M + 1])
      = ?itf (j + 1) @ concat (map ?itf [j + 1 + 1..<M + 1])"
    unfolding u by simp
  note zi = zoomIteration_render[OF Suc.prems(2,3,4), of mp rm rz]
  show ?case
  proof (cases "renderFrames rm rz (world st) (frames st) (?itf (j + 1))")
    case (Inl failure)
    obtain e fs w' where f: "failure = (e, fs, w')" by (cases failure) auto
    have "zoomLoop mp rm rz base ext options st
        = Some (Inl (e, st\<lparr>globalFrameNumber := length fs + 1, frames := fs, world := w'\<rparr>))"
      using c zi Inl f by (subst zoomLoop.simps) simp
    then show ?thesis
      unfolding cc renderFrames_append using Inl f by (simp add: rendered_def)
  next
    case (Inr success)
    obtain fs w' where s: "success = (fs, w')" by (cases success) auto
    let ?st' = "st\<lparr>globalFrameNumber := length fs,
                    currentInputPath := frameOutputPath base ext (length fs),
                    frames := fs, world := w'\<rparr>"
    have fs: "fs = frames st @ ?itf (j + 1)"
      using Inr s by (intro renderFrames_Inr) simp
    have len: "length fs = (j + 1) * (?S + 1)"
      unfolding fs using Suc.prems(3) by (simp add: length_iterationFrames)
    have d: "d = M - (j + 1)" using Suc.hyps(2) by simp
    have le: "j + 1 \<le> M" using lt by simp
    have a1: "globalFrameNumber ?st' = length (frames ?st')" by simp
    have a2: "length (frames ?st') = (j + 1) * (?S + 1)" using len by simp
    have a3: "currentInputPath ?st'
        = (if j + 1 = 0 then input else frameOutputPath base ext ((j + 1) * (?S + 1)))"
      using len by simp
    from Suc.hyps(1)[OF d le a1 a2 a3] obtain res where
      r: "zoomLoop mp rm rz base ext options ?st' = Some res"
         "rendered res (renderFrames rm rz w' fs (concat (map ?itf [j + 1 + 1..<M + 1])))"
      by auto
    have "zoomLoop mp rm rz base ext options st
        = zoomLoop mp rm rz base ext options ?st'"
      using c zi Inr s by (subst zoomLoop.simps) simp
    then show ?thesis
      unfolding cc renderFrames_append using Inr s r by simp
  qed
qed

text \<open>
  With \<open>maxIterations = None\<close> the loop ends only by an error. When a frame of some
  iteration fails, the loop returns the rendering up to that frame; and when the loop
  returns, it returns such a rendering.
\<close>

lemma zoomLoop_unbounded_fails:
  assumes m: "maxIterations options = None"
  shows "globalFrameNumber st = length (frames st)
     \<Longrightarrow> length (frames st) = j * (zoomSteps options + 1)
     \<Longrightarrow> currentInputPath st
           = (if j = 0 then input else frameOutputPath base ext (j * (zoomSteps options + 1)))
     \<Longrightarrow> renderFrames rm rz (world st) (frames st)
           (concat (map (iterationFrames mp input base ext options) [j + 1..<J + 1])) = Inl x
     \<Longrightarrow> \<exists>res. zoomLoop mp rm rz base ext options st = Some res \<and> rendered res (Inl x)"
proof (induction "J - j" arbitrary: j st)
  case 0
  then have "[j + 1..<J + 1] = []" by simp
  then show ?case using "0.prems"(4) by simp
next
  case (Suc d)
  let ?S = "zoomSteps options"
  let ?itf = "iterationFrames mp input base ext options"
  have lt: "j < J" using Suc.hyps(2) by simp
  have c: "continueZoom options (globalFrameNumber st)" using m by (simp add: continueZoom_def)
  have u: "[j + 1..<J + 1] = (j + 1) # [j + 1 + 1..<J + 1]"
    using lt by (simp add: upt_conv_Cons del: upt_Suc)
  have cc: "concat (map ?itf [j + 1..<J + 1])
      = ?itf (j + 1) @ concat (map ?itf [j + 1 + 1..<J + 1])"
    unfolding u by simp
  note zi = zoomIteration_render[OF Suc.prems(1,2,3), of mp rm rz]
  note whole = Suc.prems(4)[unfolded cc renderFrames_append]
  show ?case
  proof (cases "renderFrames rm rz (world st) (frames st) (?itf (j + 1))")
    case (Inl failure)
    obtain e fs w' where f: "failure = (e, fs, w')" by (cases failure) auto
    have x: "x = (e, fs, w')" using whole Inl f by simp
    have "zoomLoop mp rm rz base ext options st
        = Some (Inl (e, st\<lparr>globalFrameNumber := length fs + 1, frames := fs, world := w'\<rparr>))"
      using c zi Inl f by (subst zoomLoop.simps) simp
    then show ?thesis unfolding x by (simp add: rendered_def)
  next
    case (Inr success)
    obtain fs w' where s: "success = (fs, w')" by (cases success) auto
    let ?st' = "st\<lparr>globalFrameNumber := length fs,
                    currentInputPath := frameOutputPath base ext (length fs),
                    frames := fs, world := w'\<rparr>"
    have fs: "fs = frames st @ ?itf (j + 1)"
      using Inr s by (intro renderFrames_Inr) simp
    have len: "length fs = (j + 1) * (?S + 1)"
      unfolding fs using Suc.prems(2) by (simp add: length_iterationFrames)
    have d: "d = J - (j + 1)" using Suc.hyps(2) by simp
    have a1: "globalFrameNumber ?st' = length (frames ?st')" by simp
    have a2: "length (frames ?st') = (j + 1) * (?S + 1)" using len by simp
    have a3: "currentInputPath ?st'
        = (if j + 1 = 0 then input else frameOutputPath base ext ((j + 1) * (?S + 1)))"
      using len by simp
    have a4: "renderFrames rm rz (world ?st') (frames ?st')
           (concat (map ?itf [j + 1 + 1..<J + 1])) = Inl x"
      using whole Inr s by simp
    from Suc.hyps(1)[OF d a1 a2 a3 a4] obtain res where
      r: "zoomLoop mp rm rz base ext options ?st' = Some res" "rendered res (Inl x)"
      by auto
    have "zoomLoop mp rm rz base ext options st
        = zoomLoop mp rm rz base ext options ?st'"
      using c zi Inr s by (subst zoomLoop.simps) simp
    then show ?thesis using r by simp
  qed
qed

lemma zoomLoop_unbounded_returns:
  assumes r: "zoomLoop mp rm rz base ext options st = Some res"
  shows "maxIterations options = None
     \<longrightarrow> (\<forall>j. globalFrameNumber st = length (frames st)
              \<and> length (frames st) = j * (zoomSteps options + 1)
              \<and> currentInputPath st
                  = (if j = 0 then input
                     else frameOutputPath base ext (j * (zoomSteps options + 1)))
            \<longrightarrow> (\<exists>J x. renderFrames rm rz (world st) (frames st)
                          (concat (map (iterationFrames mp input base ext options)
                                     [j + 1..<J + 1])) = Inl x
                      \<and> rendered res (Inl x)))"
proof (rule zoomLoop.raw_induct
    [where P = "\<lambda>mp rm rz base ext options st res.
       maxIterations options = None
       \<longrightarrow> (\<forall>j. globalFrameNumber st = length (frames st)
              \<and> length (frames st) = j * (zoomSteps options + 1)
              \<and> currentInputPath st
                  = (if j = 0 then input
                     else frameOutputPath base ext (j * (zoomSteps options + 1)))
            \<longrightarrow> (\<exists>J x. renderFrames rm rz (world st) (frames st)
                          (concat (map (iterationFrames mp input base ext options)
                                     [j + 1..<J + 1])) = Inl x
                      \<and> rendered res (Inl x)))", OF _ r], goal_cases)
  case (1 zl mp rm rz base ext options st res)
  let ?S = "zoomSteps options"
  let ?itf = "iterationFrames mp input base ext options"
  show ?case
  proof (intro impI allI)
    fix j
    assume m: "maxIterations options = None"
    assume inv: "globalFrameNumber st = length (frames st)
              \<and> length (frames st) = j * (?S + 1)
              \<and> currentInputPath st
                  = (if j = 0 then input else frameOutputPath base ext (j * (?S + 1)))"
    then have g: "globalFrameNumber st = length (frames st)"
      and l: "length (frames st) = j * (?S + 1)"
      and cp: "currentInputPath st
                  = (if j = 0 then input else frameOutputPath base ext (j * (?S + 1)))"
      by simp_all
    have c: "continueZoom options (globalFrameNumber st)" using m by (simp add: continueZoom_def)
    note zi = zoomIteration_render[OF g l cp, of mp rm rz]
    show "\<exists>J x. renderFrames rm rz (world st) (frames st)
                    (concat (map ?itf [j + 1..<J + 1])) = Inl x
              \<and> rendered res (Inl x)"
    proof (cases "renderFrames rm rz (world st) (frames st) (?itf (j + 1))")
      case (Inl failure)
      obtain e fs w' where f: "failure = (e, fs, w')" by (cases failure) auto
      have "res = Inl (e, st\<lparr>globalFrameNumber := length fs + 1, frames := fs, world := w'\<rparr>)"
        using 1(2) c zi Inl f by simp
      then have "rendered res (Inl failure)" unfolding f by (simp add: rendered_def)
      moreover have "renderFrames rm rz (world st) (frames st)
                    (concat (map ?itf [j + 1..<j + 1 + 1])) = Inl failure"
        using Inl by simp
      ultimately show ?thesis by blast
    next
      case (Inr success)
      obtain fs w' where s: "success = (fs, w')" by (cases success) auto
      let ?st' = "st\<lparr>globalFrameNumber := length fs,
                      currentInputPath := frameOutputPath base ext (length fs),
                      frames := fs, world := w'\<rparr>"
      have fs: "fs = frames st @ ?itf (j + 1)"
        using Inr s by (intro renderFrames_Inr) simp
      have len: "length fs = (j + 1) * (?S + 1)"
        unfolding fs using l by (simp add: length_iterationFrames)
      have "zl mp rm rz base ext options ?st' = Some res"
        using 1(2) c zi Inr s by simp
      from 1(1)[OF this] m have
        "\<forall>j'. globalFrameNumber ?st' = length (frames ?st')
              \<and> length (frames ?st') = j' * (?S + 1)
              \<and> currentInputPath ?st'
                  = (if j' = 0 then input else frameOutputPath base ext (j' * (?S + 1)))
            \<longrightarrow> (\<exists>J x. renderFrames rm rz (world ?st') (frames ?st')
                          (concat (map ?itf [j' + 1..<J + 1])) = Inl x
                      \<and> rendered res (Inl x))"
        by simp
      from this[rule_format, of "j + 1"] len obtain J x where
        jx: "renderFrames rm rz w' fs (concat (map ?itf [j + 1 + 1..<J + 1])) = Inl x"
            "rendered res (Inl x)"
        by auto
      have lt: "j + 1 < J"
      proof (rule ccontr)
        assume "\<not> j + 1 < J"
        then have "[j + 1 + 1..<J + 1] = []" by simp
        then show False using jx(1) by simp
      qed
      then have u: "[j + 1..<J + 1] = (j + 1) # [j + 1 + 1..<J + 1]"
        by (simp add: upt_conv_Cons del: upt_Suc)
      have "renderFrames rm rz (world st) (frames st) (concat (map ?itf [j + 1..<J + 1])) = Inl x"
        unfolding u using Inr s jx(1) by (simp add: renderFrames_append)
      then show ?thesis using jx(2) by blast
    qed
  qed
qed

text \<open>The numbers and the names of the frames of the specification.\<close>

lemma upt_shift: "[a + 1..<a + S + 1] = map (\<lambda>k. a + k) [1..<S + 1]"
  by (induction S) simp_all

lemma iterationFrames_numbers:
  assumes "1 \<le> i"
  shows "map (\<lambda>(it, kd, n, fname). (it, n, fname)) (iterationFrames mp input base ext options i)
       = map (\<lambda>n. (i, n, frameOutputPath base ext n))
           [(i - 1) * (zoomSteps options + 1) + 1..<i * (zoomSteps options + 1) + 1]"
proof -
  let ?S = "zoomSteps options"
  let ?first = "(i - 1) * (?S + 1) + 1"
  have "i * (?S + 1) = (i - 1) * (?S + 1) + (?S + 1)"
    using assms by (metis add.commute le_add_diff_inverse2 mult_Suc Suc_eq_plus1 add_diff_cancel_right' mult.commute mult_Suc_right)
  then have e: "i * (?S + 1) + 1 = ?first + ?S + 1" by simp
  have "[?first..<?first + ?S + 1] = ?first # [?first + 1..<?first + ?S + 1]"
    by (simp add: upt_conv_Cons del: upt_Suc)
  also have "\<dots> = ?first # map (\<lambda>k. ?first + k) [1..<?S + 1]"
    by (simp only: upt_shift)
  finally have u: "[?first..<i * (?S + 1) + 1] = ?first # map (\<lambda>k. ?first + k) [1..<?S + 1]"
    unfolding e .
  show ?thesis
    unfolding u by (simp add: iterationFrames_def Let_def comp_def del: upt_Suc)
qed

lemma sequenceFrames_Suc:
  "sequenceFrames mp input base ext options (Suc M)
   = sequenceFrames mp input base ext options M
     @ iterationFrames mp input base ext options (M + 1)"
  by (simp add: sequenceFrames_def)

lemma iterationFrames_counter:
  "map (\<lambda>(it, kd, n, fname). n) (iterationFrames mp input base ext options (j + 1))
   = [j * (zoomSteps options + 1) + 1..<j * (zoomSteps options + 1) + zoomSteps options + 2]"
proof -
  let ?S = "zoomSteps options"
  let ?first = "j * (?S + 1) + 1"
  have "[?first..<?first + ?S + 1] = ?first # [?first + 1..<?first + ?S + 1]"
    by (simp add: upt_conv_Cons del: upt_Suc)
  also have "\<dots> = ?first # map (\<lambda>k. ?first + k) [1..<?S + 1]"
    by (simp only: upt_shift)
  finally have u: "[?first..<?first + ?S + 1] = ?first # map (\<lambda>k. ?first + k) [1..<?S + 1]" .
  have e: "j * (?S + 1) + ?S + 2 = ?first + ?S + 1" by simp
  show ?thesis
    unfolding e u by (simp add: iterationFrames_def Let_def comp_def del: upt_Suc)
qed

lemma sequenceFrames_numbers:
  "map (\<lambda>(it, kd, n, fname). n) (sequenceFrames mp input base ext options M)
   = [1..<M * (zoomSteps options + 1) + 1]"
proof (induction M)
  case 0
  then show ?case by (simp add: sequenceFrames_def)
next
  case (Suc M)
  let ?S = "zoomSteps options"
  have "[1..<Suc M * (?S + 1) + 1]
      = [1..<M * (?S + 1) + 1] @ [M * (?S + 1) + 1..<M * (?S + 1) + ?S + 2]"
    using upt_add_eq_append[of 1 "M * (?S + 1) + 1" "?S + 1"] by (simp add: algebra_simps)
  then show ?case
    unfolding sequenceFrames_Suc using Suc iterationFrames_counter[of mp input base ext options M]
    by (simp del: upt_Suc)
qed

lemma length_sequenceFrames:
  "length (sequenceFrames mp input base ext options M) = M * (zoomSteps options + 1)"
  by (induction M) (simp_all add: sequenceFrames_def length_iterationFrames)

lemma padStart_length: "n \<le> length (padStart n c s)"
  by (simp add: padStart_def)

text \<open>The whole run, from the first frame.\<close>

lemma generate_bounded:
  assumes "maxIterations options = Some M"
  shows "\<exists>res. generateInfiniteZoomMosaic mp rm rz w input base ext options = Some res
           \<and> rendered res (renderFrames rm rz w []
                 (sequenceFrames mp input base ext options M))"
  unfolding generateInfiniteZoomMosaic_def sequenceFrames_def
  using zoomLoop_bounded_render[OF assms, of 0
      "\<lparr>globalFrameNumber = 0, currentInputPath = input, frames = [], world = w\<rparr>"
      input base ext mp rm rz]
  by simp

lemma generate_unbounded_returns:
  assumes "maxIterations options = None"
    and "generateInfiniteZoomMosaic mp rm rz w input base ext options = Some res"
  shows "\<exists>J x. renderFrames rm rz w [] (sequenceFrames mp input base ext options J) = Inl x
           \<and> rendered res (Inl x)"
  using zoomLoop_unbounded_returns[OF assms(2)[unfolded generateInfiniteZoomMosaic_def],
      of input] assms(1)
  unfolding sequenceFrames_def by simp

lemma generate_unbounded_fails:
  assumes "maxIterations options = None"
    and "renderFrames rm rz w [] (sequenceFrames mp input base ext options J) = Inl x"
  shows "\<exists>res. generateInfiniteZoomMosaic mp rm rz w input base ext options = Some res
           \<and> rendered res (Inl x)"
  unfolding generateInfiniteZoomMosaic_def
  using zoomLoop_unbounded_fails[OF assms(1), of
      "\<lparr>globalFrameNumber = 0, currentInputPath = input, frames = [], world = w\<rparr>"
      0 input base ext rm rz mp J x] assms(2)
  unfolding sequenceFrames_def by simp

lemma generate_runs_forever:
  assumes "maxIterations options = None" and "neverFails rm rz"
  shows "generateInfiniteZoomMosaic mp rm rz w input base ext options = None"
proof (cases "generateInfiniteZoomMosaic mp rm rz w input base ext options")
  case None
  then show ?thesis .
next
  case (Some res)
  from generate_unbounded_returns[OF assms(1) Some] obtain J x where
    "renderFrames rm rz w [] (sequenceFrames mp input base ext options J) = Inl x" by blast
  moreover from renderFrames_neverFails[OF assms(2), of w "[]"
      "sequenceFrames mp input base ext options J"]
  obtain w' where "renderFrames rm rz w [] (sequenceFrames mp input base ext options J)
      = Inr (sequenceFrames mp input base ext options J, w')" by auto
  ultimately show ?thesis by simp
qed

lemma rendered_Inr:
  assumes "rendered res (renderFrames rm rz w [] fs)" "res = Inr st"
  shows "frames st = fs \<and> globalFrameNumber st = length fs
       \<and> renderFrames rm rz w [] fs = Inr (fs, world st)"
proof (cases "renderFrames rm rz w [] fs")
  case (Inl failure)
  then show ?thesis using assms by (simp add: rendered_def split: prod.splits)
next
  case (Inr success)
  obtain fs' w' where s: "success = (fs', w')" by (cases success) auto
  from renderFrames_Inr[OF Inr[unfolded s]] have "fs' = fs" by simp
  then show ?thesis using assms Inr s by (simp add: rendered_def)
qed

lemma rendered_Inl:
  assumes "rendered res (renderFrames rm rz w [] fs)" "res = Inl (e, st)"
  shows "\<exists>m<length fs. frames st = take m fs \<and> globalFrameNumber st = m + 1
           \<and> renderFrames rm rz w [] (take m fs) = Inr (take m fs, world st)
           \<and> renderFrame rm rz (world st) (fs ! m) = Inl e"
proof (cases "renderFrames rm rz w [] fs")
  case (Inr success)
  then show ?thesis using assms by (simp add: rendered_def split: prod.splits)
next
  case (Inl failure)
  obtain e' fs' w' where f: "failure = (e', fs', w')" by (cases failure) auto
  have r: "e' = e" "frames st = fs'" "world st = w'" "globalFrameNumber st = length fs' + 1"
    using assms Inl f by (simp_all add: rendered_def)
  from renderFrames_Inl[OF Inl[unfolded f]] obtain m where
    m: "m < length fs" "fs' = take m fs" "renderFrame rm rz w' (fs ! m) = Inl e'"
    by auto
  have "renderFrames rm rz w [] (take m fs @ drop m fs) = Inl (e', fs', w')"
    using Inl f by simp
  note whole = this[unfolded renderFrames_append]
  have tk: "renderFrames rm rz w [] (take m fs) = Inr (take m fs, w')"
  proof (cases "renderFrames rm rz w [] (take m fs)")
    case i: (Inl failure')
    obtain e2 fs2 w2 where f2: "failure' = (e2, fs2, w2)" by (cases failure') auto
    from renderFrames_Inl[OF i[unfolded f2]] obtain m' where
      m': "m' < length (take m fs)" "fs2 = [] @ take m' (take m fs)" by auto
    have "fs2 = fs'" using whole i f2 by simp
    then have "length fs2 = m" using m(1,2) by simp
    moreover have "length fs2 = m'" using m' by simp
    ultimately show ?thesis using m'(1) by simp
  next
    case s: (Inr success)
    obtain fs2 w2 where s2: "success = (fs2, w2)" by (cases success) auto
    from renderFrames_Inr[OF s[unfolded s2]] have fs2: "fs2 = take m fs" by simp
    have dr: "drop m fs = (fs ! m) # drop (Suc m) fs"
      using m(1) by (simp add: Cons_nth_drop_Suc)
    have rest: "renderFrames rm rz w2 (take m fs) ((fs ! m) # drop (Suc m) fs) = Inl (e', fs', w')"
      using whole s s2 fs2 unfolding dr[symmetric] by simp
    have "w2 = w'"
    proof (cases "renderFrame rm rz w2 (fs ! m)")
      case (Inl e3)
      then show ?thesis using rest by simp
    next
      case (Inr w3)
      then have "renderFrames rm rz w3 (take m fs @ [fs ! m]) (drop (Suc m) fs) = Inl (e', fs', w')"
        using rest by simp
      from renderFrames_Inl[OF this] obtain m2 where
        "fs' = (take m fs @ [fs ! m]) @ take m2 (drop (Suc m) fs)" by auto
      then have "length fs' \<ge> Suc m" using m(1) by simp
      then show ?thesis using m(1,2) by simp
    qed
    then show ?thesis using s s2 fs2 by simp
  qed
  show ?thesis using m r tk by auto
qed

text \<open>
  Claim C7. The frames that a run completes, with their numbers, names and iteration
  numbers, are the frames of the specification in order: iteration \<open>i\<close> is the base
  mosaic, frame \<open>(i - 1) * (S + 1) + 1\<close>, followed by the zoom steps 1 to \<open>S\<close>, up to
  frame \<open>i * (S + 1)\<close>; the numbers of the frames of the first \<open>M\<close> iterations are
  1, 2, ... , \<open>M * (S + 1)\<close>. With \<open>maxIterations = M\<close> the run always returns, and its
  result is the rendering of the frames of \<open>M\<close> iterations one after the other: when no
  frame fails it has completed exactly these \<open>M * (S + 1)\<close> frames, and when frame
  \<open>m + 1\<close> fails it returns that error after the first \<open>m\<close> of them, the frame counter
  at \<open>m + 1\<close>. The loop goes on exactly while the frame counter divided by \<open>S + 1\<close>,
  rounded down, is below \<open>M\<close>. With \<open>maxIterations = None\<close> the run returns only by the
  error of a frame, after the frames before it, and never returns when no frame fails.
  The file name of frame \<open>n\<close> is the base name, an underscore, the decimal digits of
  \<open>n\<close> (which \<^verbatim>\<open>parseInt\<close> reads back as \<open>n\<close>) filled with zeros on the left to four
  characters at least, and the extension.
\<close>

theorem frame_numbering:
  fixes renderMosaic :: "'w mosaicRenderer" and renderZoom :: "'w zoomRenderer"
  assumes "zoomSteps options = S"
  shows "(maxIterations options = Some M
          \<longrightarrow> (\<exists>res. generateInfiniteZoomMosaic mathPow renderMosaic renderZoom w inputImagePath
                         baseOutputPath extension options = Some res
                 \<and> rendered res
                     (renderFrames renderMosaic renderZoom w []
                        (sequenceFrames mathPow inputImagePath baseOutputPath extension options M))
                 \<and> (\<forall>st. res = Inr st
                      \<longrightarrow> frames st
                            = sequenceFrames mathPow inputImagePath baseOutputPath extension
                                options M
                          \<and> globalFrameNumber st = M * (S + 1))
                 \<and> (\<forall>e st. res = Inl (e, st)
                      \<longrightarrow> (\<exists>m<M * (S + 1).
                             frames st
                               = take m (sequenceFrames mathPow inputImagePath baseOutputPath
                                           extension options M)
                             \<and> globalFrameNumber st = m + 1
                             \<and> renderFrame renderMosaic renderZoom (world st)
                                 (sequenceFrames mathPow inputImagePath baseOutputPath
                                    extension options M ! m) = Inl e))
                 \<and> (neverFails renderMosaic renderZoom \<longrightarrow> (\<exists>st. res = Inr st))))
       \<and> (maxIterations options = None
          \<longrightarrow> (\<forall>res. generateInfiniteZoomMosaic mathPow renderMosaic renderZoom w inputImagePath
                         baseOutputPath extension options = Some res
                  \<longrightarrow> (\<exists>J e st m. res = Inl (e, st) \<and> m < J * (S + 1)
                         \<and> frames st
                             = take m (sequenceFrames mathPow inputImagePath baseOutputPath
                                         extension options J)
                         \<and> globalFrameNumber st = m + 1
                         \<and> renderFrame renderMosaic renderZoom (world st)
                             (sequenceFrames mathPow inputImagePath baseOutputPath
                                extension options J ! m) = Inl e))
            \<and> (\<forall>J x. renderFrames renderMosaic renderZoom w []
                        (sequenceFrames mathPow inputImagePath baseOutputPath extension
                           options J) = Inl x
                  \<longrightarrow> (\<exists>res. generateInfiniteZoomMosaic mathPow renderMosaic renderZoom w
                                inputImagePath baseOutputPath extension options = Some res
                         \<and> rendered res (Inl x)))
            \<and> (neverFails renderMosaic renderZoom
                  \<longrightarrow> generateInfiniteZoomMosaic mathPow renderMosaic renderZoom w
                        inputImagePath baseOutputPath extension options = None))
       \<and> (1 \<le> i
          \<longrightarrow> map (\<lambda>(it, kd, n, fname). (it, n, fname))
                (iterationFrames mathPow inputImagePath baseOutputPath extension options i)
              = map (\<lambda>n. (i, n, frameOutputPath baseOutputPath extension n))
                  [(i - 1) * (S + 1) + 1..<i * (S + 1) + 1])
       \<and> map (\<lambda>(it, kd, n, fname). kd)
            (iterationFrames mathPow inputImagePath baseOutputPath extension options i)
          = BaseMosaic (if i = 1 then inputImagePath
                        else frameOutputPath baseOutputPath extension ((i - 1) * (S + 1)))
            # map (\<lambda>k. ZoomStep k (zoomTileSize mathPow (mosaicOptions_tileSize options)
                                      (zoomFactor options) k))
                [1..<S + 1]
       \<and> map (\<lambda>(it, kd, n, fname). n)
            (sequenceFrames mathPow inputImagePath baseOutputPath extension options M)
          = [1..<M * (S + 1) + 1]
       \<and> (maxIterations options = Some M
          \<longrightarrow> (\<forall>n. continueZoom options n \<longleftrightarrow> n div (S + 1) < M))
       \<and> (\<forall>n. frameOutputPath baseOutputPath extension n
                 = baseOutputPath @ ''_'' @ replicate (4 - length (natToString n)) CHR ''0''
                     @ natToString n @ extension
               \<and> 4 \<le> length (padStart 4 CHR ''0'' (natToString n))
               \<and> parseInt (natToString n) = Num (int n))"
proof (intro conjI impI allI)
  let ?run = "generateInfiniteZoomMosaic mathPow renderMosaic renderZoom w inputImagePath
                baseOutputPath extension options"
  let ?seq = "sequenceFrames mathPow inputImagePath baseOutputPath extension options"
  assume m: "maxIterations options = Some M"
  from generate_bounded[OF m, of mathPow renderMosaic renderZoom w inputImagePath
      baseOutputPath extension]
  obtain res where r: "?run = Some res"
    and rd: "rendered res (renderFrames renderMosaic renderZoom w [] (?seq M))"
    by blast
  have len: "length (?seq M) = M * (S + 1)"
    using length_sequenceFrames[of mathPow inputImagePath baseOutputPath extension options M]
      assms by simp
  have a: "\<forall>st. res = Inr st \<longrightarrow> frames st = ?seq M \<and> globalFrameNumber st = M * (S + 1)"
    using rendered_Inr[OF rd] len by auto
  have b': "\<forall>e st. res = Inl (e, st)
      \<longrightarrow> (\<exists>m<M * (S + 1). frames st = take m (?seq M) \<and> globalFrameNumber st = m + 1
             \<and> renderFrame renderMosaic renderZoom (world st) (?seq M ! m) = Inl e)"
  proof (intro allI impI)
    fix e st
    assume "res = Inl (e, st)"
    from rendered_Inl[OF rd this] show "\<exists>m<M * (S + 1).
        frames st = take m (?seq M) \<and> globalFrameNumber st = m + 1
        \<and> renderFrame renderMosaic renderZoom (world st) (?seq M ! m) = Inl e"
      unfolding len by blast
  qed
  have c: "neverFails renderMosaic renderZoom \<longrightarrow> (\<exists>st. res = Inr st)"
  proof
    assume "neverFails renderMosaic renderZoom"
    from renderFrames_neverFails[OF this, of w "[]" "?seq M"] obtain w' where
      "renderFrames renderMosaic renderZoom w [] (?seq M) = Inr (?seq M, w')" by auto
    then show "\<exists>st. res = Inr st" using rd by (cases res) (simp_all add: rendered_def)
  qed
  show "\<exists>res. ?run = Some res
         \<and> rendered res (renderFrames renderMosaic renderZoom w [] (?seq M))
         \<and> (\<forall>st. res = Inr st \<longrightarrow> frames st = ?seq M \<and> globalFrameNumber st = M * (S + 1))
         \<and> (\<forall>e st. res = Inl (e, st)
              \<longrightarrow> (\<exists>m<M * (S + 1). frames st = take m (?seq M) \<and> globalFrameNumber st = m + 1
                     \<and> renderFrame renderMosaic renderZoom (world st) (?seq M ! m) = Inl e))
         \<and> (neverFails renderMosaic renderZoom \<longrightarrow> (\<exists>st. res = Inr st))"
    using r rd a b' c by blast
next
  let ?run = "generateInfiniteZoomMosaic mathPow renderMosaic renderZoom w inputImagePath
                baseOutputPath extension options"
  let ?seq = "sequenceFrames mathPow inputImagePath baseOutputPath extension options"
  fix res
  assume m: "maxIterations options = None" and r: "?run = Some res"
  from generate_unbounded_returns[OF m r] obtain J x where
    x: "renderFrames renderMosaic renderZoom w [] (?seq J) = Inl x" and rd: "rendered res (Inl x)"
    by blast
  obtain e fs w' where xe: "x = (e, fs, w')" by (cases x) auto
  from rd obtain st where st: "res = Inl (e, st)"
    unfolding xe by (cases res) (auto simp: rendered_def)
  have len: "length (?seq J) = J * (S + 1)"
    using length_sequenceFrames[of mathPow inputImagePath baseOutputPath extension options J]
      assms by simp
  have "rendered res (renderFrames renderMosaic renderZoom w [] (?seq J))" using rd x by simp
  from rendered_Inl[OF this st] obtain m where
    "m < J * (S + 1)" "frames st = take m (?seq J)" "globalFrameNumber st = m + 1"
    "renderFrame renderMosaic renderZoom (world st) (?seq J ! m) = Inl e"
    unfolding len by blast
  then show "\<exists>J e st m. res = Inl (e, st) \<and> m < J * (S + 1)
                         \<and> frames st = take m (?seq J)
                         \<and> globalFrameNumber st = m + 1
                         \<and> renderFrame renderMosaic renderZoom (world st) (?seq J ! m) = Inl e"
    using st by blast
next
  fix J x
  assume "maxIterations options = None"
    and "renderFrames renderMosaic renderZoom w []
           (sequenceFrames mathPow inputImagePath baseOutputPath extension options J) = Inl x"
  then show "\<exists>res. generateInfiniteZoomMosaic mathPow renderMosaic renderZoom w
                                inputImagePath baseOutputPath extension options = Some res
                         \<and> rendered res (Inl x)"
    by (rule generate_unbounded_fails)
next
  assume "maxIterations options = None" and "neverFails renderMosaic renderZoom"
  then show "generateInfiniteZoomMosaic mathPow renderMosaic renderZoom w
                        inputImagePath baseOutputPath extension options = None"
    by (rule generate_runs_forever)
next
  assume "1 \<le> i"
  from iterationFrames_numbers[OF this, of mathPow inputImagePath baseOutputPath extension options]
  show "map (\<lambda>(it, kd, n, fname). (it, n, fname))
                (iterationFrames mathPow inputImagePath baseOutputPath extension options i)
              = map (\<lambda>n. (i, n, frameOutputPath baseOutputPath extension n))
                  [(i - 1) * (S + 1) + 1..<i * (S + 1) + 1]"
    unfolding assms .
next
  show "map (\<lambda>(it, kd, n, fname). kd)
            (iterationFrames mathPow inputImagePath baseOutputPath extension options i)
          = BaseMosaic (if i = 1 then inputImagePath
                        else frameOutputPath baseOutputPath extension ((i - 1) * (S + 1)))
            # map (\<lambda>k. ZoomStep k (zoomTileSize mathPow (mosaicOptions_tileSize options)
                                      (zoomFactor options) k))
                [1..<S + 1]"
    using assms by (simp add: iterationFrames_def Let_def comp_def del: upt_Suc)
next
  show "map (\<lambda>(it, kd, n, fname). n)
            (sequenceFrames mathPow inputImagePath baseOutputPath extension options M)
          = [1..<M * (S + 1) + 1]"
    using sequenceFrames_numbers[of mathPow inputImagePath baseOutputPath extension options M]
    unfolding assms .
next
  fix n
  assume "maxIterations options = Some M"
  from continueZoom_iff[OF this, of n] show "continueZoom options n = (n div (S + 1) < M)"
    unfolding assms .
next
  fix n
  show "frameOutputPath baseOutputPath extension n
          = baseOutputPath @ ''_'' @ replicate (4 - length (natToString n)) CHR ''0''
              @ natToString n @ extension"
    by (simp add: frameOutputPath_def padStart_def)
  show "4 \<le> length (padStart 4 CHR ''0'' (natToString n))"
    by (rule padStart_length)
  show "parseInt (natToString n) = Num (int n)"
    by (rule parseInt_natToString)
qed

text \<open>The tile size of a zoom step, from the results of its three operations.\<close>

lemma zoomTileSize_eval:
  assumes "tileSize \<noteq> 0" "z \<noteq> 0" "toDouble (1 / z) = Some q" "mathPow q k = Some m"
    "toDouble (real_of_int tileSize * m) = Some t"
  shows "zoomTileSize mathPow (Some tileSize) z k = Some (mathRound t)"
  using assms by (simp add: zoomTileSize_def jsDivide_def jsTimes_def)

text \<open>
  Every operation of the tile size is exact up to a relative error of \<open>2 ^ -50\<close>, when
  \<^verbatim>\<open>Math.pow\<close> is; so the tile size is \<open>n\<close> when the exact value
  \<open>baseTileSize * (1 / z) ^ k\<close>, made smaller or larger by the \<open>k + 2\<close> errors, stays
  between \<open>n - 1/2\<close> and \<open>n + 1/2\<close>.
\<close>

lemma relative_bounds50:
  fixes x y :: real
  assumes "\<bar>y - x\<bar> \<le> x / 2 ^ 50"
  shows "x * (1 - 1 / 2 ^ 50) \<le> y" and "y \<le> x * (1 + 1 / 2 ^ 50)"
proof -
  have "x * (1 - 1 / 2 ^ 50) = x - x / 2 ^ 50" by (simp add: algebra_simps)
  then show "x * (1 - 1 / 2 ^ 50) \<le> y" using assms by linarith
  have "x * (1 + 1 / 2 ^ 50) = x + x / 2 ^ 50" by (simp add: algebra_simps)
  then show "y \<le> x * (1 + 1 / 2 ^ 50)" using assms by linarith
qed

lemma relative_bounds:
  fixes x y :: real
  assumes "0 \<le> x" "\<bar>y - x\<bar> \<le> x / 2 ^ 53"
  shows "x * (1 - 1 / 2 ^ 50) \<le> y" and "y \<le> x * (1 + 1 / 2 ^ 50)"
proof -
  have "x / 2 ^ 53 \<le> x / 2 ^ 50" using assms(1) by (intro divide_left_mono) simp_all
  then have e: "\<bar>y - x\<bar> \<le> x / 2 ^ 50" using assms(2) by simp
  show "x * (1 - 1 / 2 ^ 50) \<le> y" and "y \<le> x * (1 + 1 / 2 ^ 50)"
    using relative_bounds50[OF e] by simp_all
qed

lemma zoomTileSize_margin:
  assumes z: "1 / 2 ^ 50 \<le> z" "z < 1"
    and bt: "0 < baseTileSize"
    and pw: "jsDivide 1 z = Some q" "mathPow q k = Some m" "\<bar>m - q ^ k\<bar> \<le> q ^ k / 2 ^ 50"
    and lo: "real_of_int n - 1 / 2
             \<le> real_of_int baseTileSize * (1 / z) ^ k * (1 - 1 / 2 ^ 50) ^ (k + 2)"
    and hi: "real_of_int baseTileSize * (1 / z) ^ k * (1 + 1 / 2 ^ 50) ^ (k + 2)
             < real_of_int n + 1 / 2"
    and n: "n < 2 ^ 52"
  shows "zoomTileSize mathPow (Some baseTileSize) z k = Some n"
proof -
  define lower :: real where "lower = 1 - 1 / 2 ^ 50"
  define upper :: real where "upper = 1 + 1 / 2 ^ 50"
  define x where "x = 1 / z"
  define v where "v = real_of_int baseTileSize * x ^ k"
  have lower: "0 < lower" "lower \<le> 1" by (simp_all add: lower_def)
  have upper: "1 \<le> upper" by (simp add: upper_def)
  have zp: "0 < z" using z(1) by (rule less_le_trans[rotated]) simp
  have x1: "1 \<le> x" using z(2) zp by (simp add: x_def)
  have x50: "x \<le> 2 ^ 50" using z(1) zp by (simp add: x_def field_simps)
  have rb: "1 \<le> real_of_int baseTileSize" using bt by (rule of_int_ge_one)
  have xk: "1 \<le> x ^ k" using x1 by (rule one_le_power)
  have "1 * 1 \<le> real_of_int baseTileSize * x ^ k"
    using rb xk by (intro mult_mono) simp_all
  then have v1: "1 \<le> v" by (simp add: v_def)
  have q: "toDouble x = Some q" using pw(1) zp by (simp add: jsDivide_def x_def)
  have "1 / 2 ^ 54 \<le> x" using x1 by (rule order_trans[rotated]) simp
  moreover have "x < 2 ^ 53" using x50 by (rule le_less_trans) simp
  ultimately obtain q' where "toDouble x = Some q'" "\<bar>q' - x\<bar> \<le> x / 2 ^ 53"
    using toDouble_error_pos by blast
  then have qe: "\<bar>q - x\<bar> \<le> x / 2 ^ 53" using q by simp
  have x0: "0 \<le> x" using x1 by simp
  note qb = relative_bounds[OF x0 qe, folded lower_def upper_def]
  have ql: "0 \<le> x * lower" using x0 lower by simp
  then have q0: "0 \<le> q" using qb(1) by simp
  have "(x * lower) ^ k \<le> q ^ k" using qb(1) ql by (rule power_mono)
  then have qkl: "x ^ k * lower ^ k \<le> q ^ k" by (simp add: power_mult_distrib)
  have "q ^ k \<le> (x * upper) ^ k" using qb(2) q0 by (rule power_mono)
  then have qku: "q ^ k \<le> x ^ k * upper ^ k" by (simp add: power_mult_distrib)
  have qk0: "0 \<le> q ^ k" using q0 by simp
  note mb = relative_bounds50[OF pw(3), folded lower_def upper_def]
  have "x ^ k * lower ^ (k + 1) = x ^ k * lower ^ k * lower" by simp
  also have "\<dots> \<le> q ^ k * lower"
    using qkl lower by (intro mult_right_mono) simp_all
  also have "\<dots> \<le> m" by (rule mb(1))
  finally have ml: "x ^ k * lower ^ (k + 1) \<le> m" .
  have "m \<le> q ^ k * upper" by (rule mb(2))
  also have "\<dots> \<le> x ^ k * upper ^ k * upper"
    using qku upper by (intro mult_right_mono) simp_all
  also have "\<dots> = x ^ k * upper ^ (k + 1)" by simp
  finally have mu: "m \<le> x ^ k * upper ^ (k + 1)" .
  define bm where "bm = real_of_int baseTileSize * m"
  have "v * lower ^ (k + 1) = real_of_int baseTileSize * (x ^ k * lower ^ (k + 1))"
    unfolding v_def by (simp only: mult.assoc)
  also have "\<dots> \<le> bm"
    unfolding bm_def using ml rb by (intro mult_left_mono) simp_all
  finally have bml: "v * lower ^ (k + 1) \<le> bm" .
  have "bm \<le> real_of_int baseTileSize * (x ^ k * upper ^ (k + 1))"
    unfolding bm_def using mu rb by (intro mult_left_mono) simp_all
  also have "\<dots> = v * upper ^ (k + 1)"
    unfolding v_def by (simp only: mult.assoc)
  finally have bmu: "bm \<le> v * upper ^ (k + 1)" .
  have lo': "real_of_int n - 1 / 2 \<le> v * lower ^ (k + 2)"
    using lo by (simp add: v_def x_def lower_def)
  have hi': "v * upper ^ (k + 2) < real_of_int n + 1 / 2"
    using hi by (simp add: v_def x_def upper_def)
  have up1: "1 \<le> upper ^ (k + 2)" using upper by (rule one_le_power)
  have "v \<le> v * upper ^ (k + 2)" using v1 up1 by simp
  then have "1 < real_of_int n + 1 / 2" using v1 hi' by linarith
  then have n1: "1 \<le> n" by linarith
  have vl0: "0 \<le> v * lower ^ (k + 1)" using v1 lower by simp
  have p2l: "lower ^ (k + 2) = lower ^ (k + 1) * lower" by simp
  have p2u: "upper ^ (k + 2) = upper ^ (k + 1) * upper" by simp
  have "v * lower ^ (k + 2) = v * lower ^ (k + 1) * lower"
    unfolding p2l by (simp only: mult.assoc)
  also have "\<dots> \<le> v * lower ^ (k + 1) * 1"
    using vl0 lower(2) by (intro mult_left_mono) simp_all
  finally have ll: "v * lower ^ (k + 2) \<le> v * lower ^ (k + 1)" by simp
  have vu0: "0 \<le> v * upper ^ (k + 1)" using v1 upper by simp
  have "v * upper ^ (k + 1) * 1 \<le> v * upper ^ (k + 1) * upper"
    using vu0 upper by (intro mult_left_mono) simp_all
  also have "\<dots> = v * upper ^ (k + 2)"
    unfolding p2u by (simp only: mult.assoc)
  finally have uu: "v * upper ^ (k + 1) \<le> v * upper ^ (k + 2)" by simp
  have "real_of_int n - 1 / 2 \<le> bm" using lo' ll bml by linarith
  then have bm_half: "1 / 2 \<le> bm" using n1 by linarith
  then have bm54: "1 / 2 ^ 54 \<le> bm" by (rule order_trans[rotated]) simp
  have n52: "real_of_int n < 2 ^ 52" using n by (rule of_int_less_power2)
  have "bm < real_of_int n + 1 / 2" using bmu uu hi' by linarith
  also have "\<dots> < 2 ^ 52 + 1" using n52 by simp
  also have "\<dots> \<le> (2::real) ^ 53" by simp
  finally have bm53: "bm < 2 ^ 53" .
  from toDouble_error_pos[OF bm54 bm53] obtain t where
    t: "toDouble bm = Some t" "\<bar>t - bm\<bar> \<le> bm / 2 ^ 53" by blast
  have bm0: "0 \<le> bm" using bm_half by simp
  note tb = relative_bounds[OF bm0 t(2), folded lower_def upper_def]
  have "v * lower ^ (k + 2) = v * lower ^ (k + 1) * lower"
    unfolding p2l by (simp only: mult.assoc)
  also have "\<dots> \<le> bm * lower"
    using bml lower by (intro mult_right_mono) simp_all
  also have "\<dots> \<le> t" by (rule tb(1))
  finally have tl: "v * lower ^ (k + 2) \<le> t" .
  have "t \<le> bm * upper" by (rule tb(2))
  also have "\<dots> \<le> v * upper ^ (k + 1) * upper"
    using bmu upper by (intro mult_right_mono) simp_all
  also have "\<dots> = v * upper ^ (k + 2)"
    unfolding p2u by (simp only: mult.assoc)
  finally have tu: "t \<le> v * upper ^ (k + 2)" .
  have "mathRound t = n"
    using lo' tl tu hi' by (intro mathRound_eq) linarith+
  moreover have "zoomTileSize mathPow (Some baseTileSize) z k = Some (mathRound t)"
    using bt zp q pw(2) t(1) by (intro zoomTileSize_eval) (simp_all add: x_def bm_def)
  ultimately show ?thesis by simp
qed

text \<open>
  The tile sizes for the base tile size 40 and the zoom factor 0.9, and for the base tile
  size 61 and the zoom factor 0.976, with the \<^verbatim>\<open>Math.pow\<close> that rounds correctly.
  The zoom factor is the double nearest to the decimal number.
\<close>

lemma double_of_decimal:
  "toDouble (9 / 10) = Some (8106479329266893 / 9007199254740992)"
  "toDouble (976 / 1000) = Some (1098878309078401 / 1125899906842624)"
  by (simp_all add: double_eval)

lemma zoomTileSize_40:
  "zoomTileSize correctlyRoundedPow (Some 40) (8106479329266893 / 9007199254740992) 1 = Some 44"
  "zoomTileSize correctlyRoundedPow (Some 40) (8106479329266893 / 9007199254740992) 2 = Some 49"
  "zoomTileSize correctlyRoundedPow (Some 40) (8106479329266893 / 9007199254740992) 3 = Some 55"
  "zoomTileSize correctlyRoundedPow (Some 40) (8106479329266893 / 9007199254740992) 4 = Some 61"
proof -
  have qa: "toDouble (1 / (8106479329266893 / 9007199254740992))
      = Some (2501999792983609 / 2251799813685248)"
    by (simp add: double_eval)
  have pa1: "(2501999792983609 / 2251799813685248 :: real) ^ 1
      = 2501999792983609 / 2251799813685248"
    by (simp add: power_divide)
  have ma1: "correctlyRoundedPow (2501999792983609 / 2251799813685248) 1
      = Some (2501999792983609 / 2251799813685248)"
    unfolding correctlyRoundedPow_def pa1 by (simp add: double_eval)
  have ta1: "toDouble (real_of_int 40 * (2501999792983609 / 2251799813685248))
      = Some (3127499741229511 / 70368744177664)"
    by (simp add: double_eval)
  have sa1: "zoomTileSize correctlyRoundedPow (Some 40) (8106479329266893 / 9007199254740992) 1 = Some 44"
    using zoomTileSize_eval[where mathPow = correctlyRoundedPow and k = 1, OF _ _ qa ma1 ta1]
    by (simp add: mathRound_def)
  have pa2: "(2501999792983609 / 2251799813685248 :: real) ^ 2
      = 6260002964090022291786142664881 / 5070602400912917605986812821504"
    by (simp add: power_divide)
  have ma2: "correctlyRoundedPow (2501999792983609 / 2251799813685248) 2
      = Some (694999942495447 / 562949953421312)"
    unfolding correctlyRoundedPow_def pa2 by (simp add: double_eval)
  have ta2: "toDouble (real_of_int 40 * (694999942495447 / 562949953421312))
      = Some (3474999712477235 / 70368744177664)"
    by (simp add: double_eval)
  have sa2: "zoomTileSize correctlyRoundedPow (Some 40) (8106479329266893 / 9007199254740992) 2 = Some 49"
    using zoomTileSize_eval[where mathPow = correctlyRoundedPow and k = 2, OF _ _ qa ma2 ta2]
    by (simp add: mathRound_def)
  have pa3: "(2501999792983609 / 2251799813685248 :: real) ^ 3
      = 15662526120230014498829914992416063705212935529 / 11417981541647679048466287755595961091061972992"
    by (simp add: power_divide)
  have ma3: "correctlyRoundedPow (2501999792983609 / 2251799813685248) 3
      = Some (1544444316656549 / 1125899906842624)"
    unfolding correctlyRoundedPow_def pa3 by (simp add: double_eval)
  have ta3: "toDouble (real_of_int 40 * (1544444316656549 / 1125899906842624))
      = Some (7722221583282745 / 140737488355328)"
    by (simp add: double_eval)
  have sa3: "zoomTileSize correctlyRoundedPow (Some 40) (8106479329266893 / 9007199254740992) 3 = Some 55"
    using zoomTileSize_eval[where mathPow = correctlyRoundedPow and k = 3, OF _ _ qa ma3 ta3]
    by (simp add: mathRound_def)
  have pa4: "(2501999792983609 / 2251799813685248 :: real) ^ 4
      = 39187637110415864922822755885582266823676886014288200270744161 / 25711008708143844408671393477458601640355247900524685364822016"
    by (simp add: power_divide)
  have ma4: "correctlyRoundedPow (2501999792983609 / 2251799813685248) 4
      = Some (6864196962917995 / 4503599627370496)"
    unfolding correctlyRoundedPow_def pa4 by (simp add: double_eval)
  have ta4: "toDouble (real_of_int 40 * (6864196962917995 / 4503599627370496))
      = Some (4290123101823747 / 70368744177664)"
    by (simp add: double_eval)
  have sa4: "zoomTileSize correctlyRoundedPow (Some 40) (8106479329266893 / 9007199254740992) 4 = Some 61"
    using zoomTileSize_eval[where mathPow = correctlyRoundedPow and k = 4, OF _ _ qa ma4 ta4]
    by (simp add: mathRound_def)
  show "zoomTileSize correctlyRoundedPow (Some 40) (8106479329266893 / 9007199254740992) 1 = Some 44"
    by (rule sa1)
  show "zoomTileSize correctlyRoundedPow (Some 40) (8106479329266893 / 9007199254740992) 2 = Some 49"
    by (rule sa2)
  show "zoomTileSize correctlyRoundedPow (Some 40) (8106479329266893 / 9007199254740992) 3 = Some 55"
    by (rule sa3)
  show "zoomTileSize correctlyRoundedPow (Some 40) (8106479329266893 / 9007199254740992) 4 = Some 61"
    by (rule sa4)
qed

lemma zoomTileSize_61:
  "zoomTileSize correctlyRoundedPow (Some 61) (1098878309078401 / 1125899906842624) 1 = Some 62"
proof -
  have qb: "toDouble (1 / (1098878309078401 / 1125899906842624))
      = Some (4614343880502557 / 4503599627370496)"
    by (simp add: double_eval)
  have pb1: "(4614343880502557 / 4503599627370496 :: real) ^ 1
      = 4614343880502557 / 4503599627370496"
    by (simp add: power_divide)
  have mb1: "correctlyRoundedPow (4614343880502557 / 4503599627370496) 1
      = Some (4614343880502557 / 4503599627370496)"
    unfolding correctlyRoundedPow_def pb1 by (simp add: double_eval)
  have tb1: "toDouble (real_of_int 61 * (4614343880502557 / 4503599627370496))
      = Some (8796093022207999 / 140737488355328)"
    by (simp add: double_eval)
  have sb1: "zoomTileSize correctlyRoundedPow (Some 61) (1098878309078401 / 1125899906842624) 1 = Some 62"
    using zoomTileSize_eval[where mathPow = correctlyRoundedPow and k = 1, OF _ _ qb mb1 tb1]
    by (simp add: mathRound_def)
  show ?thesis by (rule sb1)
qed

text \<open>
  The size 62 does not depend on the \<^verbatim>\<open>Math.pow\<close> of the engine, as long as it gives
  back its argument at the exponent 1.
\<close>

lemma zoomTileSize_61_any_pow:
  assumes "mathPow (4614343880502557 / 4503599627370496) 1
           = Some (4614343880502557 / 4503599627370496)"
  shows "zoomTileSize mathPow (Some 61) (1098878309078401 / 1125899906842624) 1 = Some 62"
proof -
  have q: "toDouble (1 / (1098878309078401 / 1125899906842624))
      = Some (4614343880502557 / 4503599627370496)"
    by (simp add: double_eval)
  have t: "toDouble (real_of_int 61 * (4614343880502557 / 4503599627370496))
      = Some (8796093022207999 / 140737488355328)"
    by (simp add: double_eval)
  show ?thesis
    using zoomTileSize_eval[where mathPow = mathPow and k = 1, OF _ _ q assms t]
    by (simp add: mathRound_def)
qed

text \<open>
  Renderers that only record what they are given: nothing for a base mosaic, the tile
  size for a zoom step. The world is the list of the records.
\<close>

lemma renderFrames_record:
  "renderFrames (\<lambda>w source fname. Inr (w @ [None])) (\<lambda>w tileSize fname. Inr (w @ [Some tileSize]))
     w completed fs
   = Inr (completed @ fs,
          w @ map (\<lambda>(it, kd, n, fname).
                     case kd of BaseMosaic source \<Rightarrow> None | ZoomStep k tileSize \<Rightarrow> Some tileSize) fs)"
proof (induction fs arbitrary: w completed)
  case Nil
  then show ?case by simp
next
  case (Cons f fs)
  obtain it kd n fname where f: "f = (it, kd, n, fname)" by (cases f) auto
  show ?case unfolding f by (cases kd) (simp_all add: Cons.IH)
qed

lemma sequenceFrames_sizes:
  "map (\<lambda>(it, kd, n, fname).
          case kd of BaseMosaic source \<Rightarrow> None | ZoomStep k tileSize \<Rightarrow> Some tileSize)
     (sequenceFrames mp input base ext options M)
   = concat (replicate M
       (None # map (\<lambda>k. Some (zoomTileSize mp (mosaicOptions_tileSize options)
                                 (zoomFactor options) k))
                 [1..<zoomSteps options + 1]))"
proof (induction M)
  case 0
  then show ?case by (simp add: sequenceFrames_def)
next
  case (Suc M)
  have r: "replicate (Suc M) x = replicate M x @ [x]" for x :: "int option option list"
    by (simp add: replicate_append_same)
  show ?case
    unfolding sequenceFrames_Suc r using Suc
    by (simp add: iterationFrames_def Let_def comp_def del: upt_Suc replicate_Suc)
qed

text \<open>
  Claim C6, as the code has it. The tile sizes that a run of \<open>M\<close> iterations hands to
  the renderer of the zoom steps are, in every iteration, the sizes of the steps 1 to
  \<open>S\<close>; the size of step \<open>k\<close> is
  \<^verbatim>\<open>Math.round(baseTileSize * Math.pow(1 / zoomFactor, zoomStep))\<close> in double-precision
  arithmetic: the quotient, the power and the product are each rounded to a double. With a
  \<^verbatim>\<open>Math.pow\<close> of relative error \<open>2 ^ -50\<close> at most the size is the exact value
  \<open>baseTileSize * (1 / z) ^ k\<close> rounded to the nearest integer whenever the exact value,
  made smaller or larger by a relative error of \<open>2 ^ -50\<close> for each of the \<open>k + 2\<close>
  roundings, rounds to the same integer. For the base tile size 40 and the zoom factor
  0.9 (the double nearest to it) the size is 44 at step 1 and 49 at step 2.
\<close>

theorem zoom_step_tile_size:
  "(maxIterations options = Some M \<and> zoomSteps options = S
      \<longrightarrow> (\<exists>st. generateInfiniteZoomMosaic mathPow
                   (\<lambda>w source fname. Inr (w @ [None]))
                   (\<lambda>w tileSize fname. Inr (w @ [Some tileSize]))
                   [] inputImagePath baseOutputPath extension options = Some (Inr st)
               \<and> world st
                   = concat (replicate M
                       (None # map (\<lambda>k. Some (zoomTileSize mathPow (mosaicOptions_tileSize options)
                                                 (zoomFactor options) k))
                                 [1..<S + 1]))))
   \<and> (baseTileSize \<noteq> 0
      \<longrightarrow> zoomTileSize mathPow (Some baseTileSize) z k
          = Option.bind (jsDivide 1 z)
              (\<lambda>q. Option.bind (mathPow q k)
                 (\<lambda>zoomMultiplier.
                    map_option mathRound (jsTimes (real_of_int baseTileSize) zoomMultiplier))))
   \<and> (1 / 2 ^ 50 \<le> z \<and> z < 1 \<and> 0 < baseTileSize
        \<and> jsDivide 1 z = Some q \<and> mathPow q k = Some m \<and> \<bar>m - q ^ k\<bar> \<le> q ^ k / 2 ^ 50
        \<and> real_of_int (round (real_of_int baseTileSize * (1 / z) ^ k)) - 1 / 2
            \<le> real_of_int baseTileSize * (1 / z) ^ k * (1 - 1 / 2 ^ 50) ^ (k + 2)
        \<and> real_of_int baseTileSize * (1 / z) ^ k * (1 + 1 / 2 ^ 50) ^ (k + 2)
            < real_of_int (round (real_of_int baseTileSize * (1 / z) ^ k)) + 1 / 2
        \<and> round (real_of_int baseTileSize * (1 / z) ^ k) < 2 ^ 52
      \<longrightarrow> zoomTileSize mathPow (Some baseTileSize) z k
          = Some (round (real_of_int baseTileSize * (1 / z) ^ k)))
   \<and> (toDouble (9 / 10) = Some z \<and> jsDivide 1 z = Some q \<and> mathPow q 1 = Some m
        \<and> \<bar>m - q ^ 1\<bar> \<le> q ^ 1 / 2 ^ 50
      \<longrightarrow> zoomTileSize mathPow (Some 40) z 1 = Some 44)
   \<and> (toDouble (9 / 10) = Some z \<and> jsDivide 1 z = Some q \<and> mathPow q 2 = Some m
        \<and> \<bar>m - q ^ 2\<bar> \<le> q ^ 2 / 2 ^ 50
      \<longrightarrow> zoomTileSize mathPow (Some 40) z 2 = Some 49)"
proof (intro conjI impI)
  let ?rm = "\<lambda>w (source::string) (fname::string). Inr (w @ [None]) :: error + int option option list"
  let ?rz = "\<lambda>w (tileSize::int option) (fname::string). Inr (w @ [Some tileSize])
               :: error + int option option list"
  let ?seq = "sequenceFrames mathPow inputImagePath baseOutputPath extension options M"
  assume a: "maxIterations options = Some M \<and> zoomSteps options = S"
  then have m: "maxIterations options = Some M" by simp
  from generate_bounded[OF m, of mathPow ?rm ?rz "[]" inputImagePath baseOutputPath extension]
  obtain res where r: "generateInfiniteZoomMosaic mathPow ?rm ?rz [] inputImagePath
        baseOutputPath extension options = Some res"
    and rd: "rendered res (renderFrames ?rm ?rz [] [] ?seq)"
    by blast
  have rr: "renderFrames ?rm ?rz [] [] ?seq
      = Inr (?seq, map (\<lambda>(it, kd, n, fname).
                          case kd of BaseMosaic source \<Rightarrow> None
                          | ZoomStep k tileSize \<Rightarrow> Some tileSize) ?seq)"
    using renderFrames_record[of "[]" "[]" ?seq] by simp
  from rd obtain st where st: "res = Inr st"
    and w: "world st = map (\<lambda>(it, kd, n, fname).
                          case kd of BaseMosaic source \<Rightarrow> None
                          | ZoomStep k tileSize \<Rightarrow> Some tileSize) ?seq"
    unfolding rr by (cases res) (auto simp: rendered_def)
  show "\<exists>st. generateInfiniteZoomMosaic mathPow ?rm ?rz [] inputImagePath baseOutputPath
                extension options = Some (Inr st)
            \<and> world st
                = concat (replicate M
                    (None # map (\<lambda>k. Some (zoomTileSize mathPow (mosaicOptions_tileSize options)
                                              (zoomFactor options) k))
                              [1..<S + 1]))"
    using r st w a unfolding sequenceFrames_sizes by auto
next
  assume "baseTileSize \<noteq> 0"
  then show "zoomTileSize mathPow (Some baseTileSize) z k
          = Option.bind (jsDivide 1 z)
              (\<lambda>q. Option.bind (mathPow q k)
                 (\<lambda>zoomMultiplier.
                    map_option mathRound (jsTimes (real_of_int baseTileSize) zoomMultiplier)))"
    by (simp add: zoomTileSize_def split: option.splits)
next
  assume "1 / 2 ^ 50 \<le> z \<and> z < 1 \<and> 0 < baseTileSize
        \<and> jsDivide 1 z = Some q \<and> mathPow q k = Some m \<and> \<bar>m - q ^ k\<bar> \<le> q ^ k / 2 ^ 50
        \<and> real_of_int (round (real_of_int baseTileSize * (1 / z) ^ k)) - 1 / 2
            \<le> real_of_int baseTileSize * (1 / z) ^ k * (1 - 1 / 2 ^ 50) ^ (k + 2)
        \<and> real_of_int baseTileSize * (1 / z) ^ k * (1 + 1 / 2 ^ 50) ^ (k + 2)
            < real_of_int (round (real_of_int baseTileSize * (1 / z) ^ k)) + 1 / 2
        \<and> round (real_of_int baseTileSize * (1 / z) ^ k) < 2 ^ 52"
  then show "zoomTileSize mathPow (Some baseTileSize) z k
          = Some (round (real_of_int baseTileSize * (1 / z) ^ k))"
    by (intro zoomTileSize_margin[where q = q and m = m]) simp_all
next
  assume a: "toDouble (9 / 10) = Some z \<and> jsDivide 1 z = Some q \<and> mathPow q 1 = Some m
        \<and> \<bar>m - q ^ 1\<bar> \<le> q ^ 1 / 2 ^ 50"
  then have z: "z = 8106479329266893 / 9007199254740992"
    using double_of_decimal(1) by simp
  have lo: "real_of_int 44 - 1 / 2
      \<le> real_of_int 40 * (1 / z) ^ 1 * (1 - 1 / 2 ^ 50) ^ (1 + 2)"
    unfolding z by (simp add: power_divide)
  have hi: "real_of_int 40 * (1 / z) ^ 1 * (1 + 1 / 2 ^ 50) ^ (1 + 2) < real_of_int 44 + 1 / 2"
    unfolding z by (simp add: power_divide)
  have zl: "1 / 2 ^ 50 \<le> z" "z < 1" unfolding z by simp_all
  show "zoomTileSize mathPow (Some 40) z 1 = Some 44"
    using a by (intro zoomTileSize_margin[where q = q and m = m, OF zl _ _ _ _ lo hi]) simp_all
next
  assume a: "toDouble (9 / 10) = Some z \<and> jsDivide 1 z = Some q \<and> mathPow q 2 = Some m
        \<and> \<bar>m - q ^ 2\<bar> \<le> q ^ 2 / 2 ^ 50"
  then have z: "z = 8106479329266893 / 9007199254740992"
    using double_of_decimal(1) by simp
  have lo: "real_of_int 49 - 1 / 2
      \<le> real_of_int 40 * (1 / z) ^ 2 * (1 - 1 / 2 ^ 50) ^ (2 + 2)"
    unfolding z by (simp add: power_divide)
  have hi: "real_of_int 40 * (1 / z) ^ 2 * (1 + 1 / 2 ^ 50) ^ (2 + 2) < real_of_int 49 + 1 / 2"
    unfolding z by (simp add: power_divide)
  have zl: "1 / 2 ^ 50 \<le> z" "z < 1" unfolding z by simp_all
  show "zoomTileSize mathPow (Some 40) z 2 = Some 49"
    using a by (intro zoomTileSize_margin[where q = q and m = m, OF zl _ _ _ _ lo hi]) simp_all
qed

lemma frameOutputPath_out_zoom:
  "n < 10 \<Longrightarrow> frameOutputPath ''out/zoom'' ''.png'' n = ''out/zoom_000'' @ [digitChar n] @ ''.png''"
  "frameOutputPath ''out/zoom'' ''.png'' 10 = ''out/zoom_0010.png''"
  by (simp_all add: frameOutputPath_def padStart_def natToString.simps digitChar_def
      numeral_3_eq_3 numeral_2_eq_2)

theorem zoom_step_tile_size_witness:
  "toDouble (9 / 10) = Some (8106479329266893 / 9007199254740992)
   \<and> zoomTileSize correctlyRoundedPow (Some 40) (8106479329266893 / 9007199254740992) 1 = Some 44
   \<and> zoomTileSize correctlyRoundedPow (Some 40) (8106479329266893 / 9007199254740992) 2 = Some 49
   \<and> zoomTileSize correctlyRoundedPow (Some 40) (8106479329266893 / 9007199254740992) 3 = Some 55
   \<and> round (40 * (1 / (8106479329266893 / 9007199254740992)) ^ 3 :: real) = 55
   \<and> generateInfiniteZoomMosaic correctlyRoundedPow
        (\<lambda>w source fname. Inr (w @ [None])) (\<lambda>w tileSize fname. Inr (w @ [Some tileSize]))
        [] ''photo.jpg'' ''out/zoom'' ''.png''
        \<lparr>zoomFactor = 8106479329266893 / 9007199254740992, maxIterations = Some 1,
         zoomSteps = 2, mosaicOptions_tileSize = Some 40\<rparr>
      = Some (Inr \<lparr>globalFrameNumber = 3, currentInputPath = ''out/zoom_0003.png'',
           frames = [(1, BaseMosaic ''photo.jpg'', 1, ''out/zoom_0001.png''),
                     (1, ZoomStep 1 (Some 44), 2, ''out/zoom_0002.png''),
                     (1, ZoomStep 2 (Some 49), 3, ''out/zoom_0003.png'')],
           world = [None, Some (Some 44), Some (Some 49)]\<rparr>)"
proof -
  have r: "round (40 * (1 / (8106479329266893 / 9007199254740992)) ^ 3 :: real) = 55"
    by (simp add: round_def power_divide)
  have g: "generateInfiniteZoomMosaic correctlyRoundedPow
        (\<lambda>w source fname. Inr (w @ [None])) (\<lambda>w tileSize fname. Inr (w @ [Some tileSize]))
        [] ''photo.jpg'' ''out/zoom'' ''.png''
        \<lparr>zoomFactor = 8106479329266893 / 9007199254740992, maxIterations = Some 1,
         zoomSteps = 2, mosaicOptions_tileSize = Some 40\<rparr>
      = Some (Inr \<lparr>globalFrameNumber = 3, currentInputPath = ''out/zoom_0003.png'',
           frames = [(1, BaseMosaic ''photo.jpg'', 1, ''out/zoom_0001.png''),
                     (1, ZoomStep 1 (Some 44), 2, ''out/zoom_0002.png''),
                     (1, ZoomStep 2 (Some 49), 3, ''out/zoom_0003.png'')],
           world = [None, Some (Some 44), Some (Some 49)]\<rparr>)"
    by (simp add: generateInfiniteZoomMosaic_def zoomLoop.simps continueZoom_def
        zoomIteration_def upt_conv_Cons frameOutputPath_out_zoom digitChar_def Suc_eq_plus1
        zoomTileSize_40 Let_def del: upt_Suc One_nat_def)
  have c: ?thesis
    using r g zoomTileSize_40 double_of_decimal(1) by (simp only: simp_thms)
  show ?thesis
    using zoom_step_tile_size
      [where mathPow = correctlyRoundedPow and M = 1 and S = 2
         and inputImagePath = "''photo.jpg''" and baseOutputPath = "''out/zoom''"
         and extension = "''.png''"
         and options = "\<lparr>zoomFactor = 8106479329266893 / 9007199254740992,
                         maxIterations = Some 1, zoomSteps = 2,
                         mosaicOptions_tileSize = Some 40\<rparr>"
         and baseTileSize = 40 and z = "8106479329266893 / 9007199254740992" and k = 3
         and q = "2501999792983609 / 2251799813685248"
         and m = "1544444316656549 / 1125899906842624"]
    by - (rule c)
qed

text \<open>
  Claim C6 as it is written fails where the exact value is within the rounding errors of
  the middle between two integers. For the base tile size 61 and the zoom factor 0.976
  (the double nearest to it, which is below 0.976) the exact value \<open>61 * (1 / z) ^ 1\<close>
  is above 62.5 and rounds to 63, as the value for the decimal number does; the double
  nearest to \<open>1 / z\<close> times 61 rounds to the double below 62.5, and the tile size
  handed to the renderer at step 1 is 62.
\<close>

theorem zoom_tile_size_double_rounding:
  "toDouble (976 / 1000) = Some (1098878309078401 / 1125899906842624)
   \<and> zoomTileSize correctlyRoundedPow (Some 61) (1098878309078401 / 1125899906842624) 1 = Some 62
   \<and> round (61 * (1 / (1098878309078401 / 1125899906842624)) ^ 1 :: real) = 63
   \<and> round (61 * (1 / (976 / 1000)) ^ 1 :: real) = 63
   \<and> (1098878309078401 / 1125899906842624 :: real) < 976 / 1000
   \<and> generateInfiniteZoomMosaic correctlyRoundedPow
        (\<lambda>w source fname. Inr (w @ [None])) (\<lambda>w tileSize fname. Inr (w @ [Some tileSize]))
        [] ''photo.jpg'' ''out/zoom'' ''.png''
        \<lparr>zoomFactor = 1098878309078401 / 1125899906842624, maxIterations = Some 1,
         zoomSteps = 1, mosaicOptions_tileSize = Some 61\<rparr>
      = Some (Inr \<lparr>globalFrameNumber = 2, currentInputPath = ''out/zoom_0002.png'',
           frames = [(1, BaseMosaic ''photo.jpg'', 1, ''out/zoom_0001.png''),
                     (1, ZoomStep 1 (Some 62), 2, ''out/zoom_0002.png'')],
           world = [None, Some (Some 62)]\<rparr>)"
proof -
  have r: "round (61 * (1 / (1098878309078401 / 1125899906842624)) ^ 1 :: real) = 63"
    "round (61 * (1 / (976 / 1000)) ^ 1 :: real) = 63"
    "(1098878309078401 / 1125899906842624 :: real) < 976 / 1000"
    by (simp_all add: round_def)
  have g: "generateInfiniteZoomMosaic correctlyRoundedPow
        (\<lambda>w source fname. Inr (w @ [None])) (\<lambda>w tileSize fname. Inr (w @ [Some tileSize]))
        [] ''photo.jpg'' ''out/zoom'' ''.png''
        \<lparr>zoomFactor = 1098878309078401 / 1125899906842624, maxIterations = Some 1,
         zoomSteps = 1, mosaicOptions_tileSize = Some 61\<rparr>
      = Some (Inr \<lparr>globalFrameNumber = 2, currentInputPath = ''out/zoom_0002.png'',
           frames = [(1, BaseMosaic ''photo.jpg'', 1, ''out/zoom_0001.png''),
                     (1, ZoomStep 1 (Some 62), 2, ''out/zoom_0002.png'')],
           world = [None, Some (Some 62)]\<rparr>)"
    by (simp add: generateInfiniteZoomMosaic_def zoomLoop.simps continueZoom_def
        zoomIteration_def upt_conv_Cons frameOutputPath_out_zoom digitChar_def Suc_eq_plus1
        zoomTileSize_61 Let_def del: upt_Suc One_nat_def)
  show ?thesis
    using r g zoomTileSize_61 double_of_decimal(2) by (simp only: simp_thms)
qed

theorem frame_numbering_witness:
  "generateInfiniteZoomMosaic correctlyRoundedPow (\<lambda>w a p. Inr w) (\<lambda>w s p. Inr w) ()
       ''photo.jpg'' ''out/zoom'' ''.png''
       \<lparr>zoomFactor = 8106479329266893 / 9007199254740992, maxIterations = Some 2,
        zoomSteps = 4, mosaicOptions_tileSize = Some 40\<rparr>
     = Some (Inr \<lparr>globalFrameNumber = 10, currentInputPath = ''out/zoom_0010.png'',
          frames = [(1, BaseMosaic ''photo.jpg'', 1, ''out/zoom_0001.png''),
                    (1, ZoomStep 1 (Some 44), 2, ''out/zoom_0002.png''),
                    (1, ZoomStep 2 (Some 49), 3, ''out/zoom_0003.png''),
                    (1, ZoomStep 3 (Some 55), 4, ''out/zoom_0004.png''),
                    (1, ZoomStep 4 (Some 61), 5, ''out/zoom_0005.png''),
                    (2, BaseMosaic ''out/zoom_0005.png'', 6, ''out/zoom_0006.png''),
                    (2, ZoomStep 1 (Some 44), 7, ''out/zoom_0007.png''),
                    (2, ZoomStep 2 (Some 49), 8, ''out/zoom_0008.png''),
                    (2, ZoomStep 3 (Some 55), 9, ''out/zoom_0009.png''),
                    (2, ZoomStep 4 (Some 61), 10, ''out/zoom_0010.png'')],
          world = ()\<rparr>)
   \<and> generateInfiniteZoomMosaic correctlyRoundedPow (\<lambda>w a p. Inr w)
       (\<lambda>w s p. if p = ''out/zoom_0003.png'' then Inl (Error ''disk full'') else Inr w) ()
       ''photo.jpg'' ''out/zoom'' ''.png''
       \<lparr>zoomFactor = 8106479329266893 / 9007199254740992, maxIterations = None,
        zoomSteps = 4, mosaicOptions_tileSize = Some 40\<rparr>
     = Some (Inl (Error ''disk full'',
          \<lparr>globalFrameNumber = 3, currentInputPath = ''photo.jpg'',
           frames = [(1, BaseMosaic ''photo.jpg'', 1, ''out/zoom_0001.png''),
                     (1, ZoomStep 1 (Some 44), 2, ''out/zoom_0002.png'')],
           world = ()\<rparr>))"
proof -
  have c: ?thesis
    by (simp add: generateInfiniteZoomMosaic_def zoomLoop.simps continueZoom_def
        zoomIteration_def upt_conv_Cons frameOutputPath_out_zoom digitChar_def Suc_eq_plus1
        zoomTileSize_40 del: upt_Suc One_nat_def)
  show ?thesis
    using frame_numbering
      [where mathPow = correctlyRoundedPow and renderMosaic = "\<lambda>w a p. Inr w"
         and renderZoom = "\<lambda>w s p. Inr w" and w = "()"
         and M = 2 and S = 4 and i = 2 and inputImagePath = "''photo.jpg''"
         and baseOutputPath = "''out/zoom''" and extension = "''.png''"
         and options = "\<lparr>zoomFactor = 8106479329266893 / 9007199254740992,
                         maxIterations = Some 2, zoomSteps = 4,
                         mosaicOptions_tileSize = Some 40\<rparr>"]
    by - (rule c)
qed

end
